theory Spec2Isabelle
  imports Complex_Main "HOL-Library.Multiset"
begin

section \<open>JavaScript Map as an insertion-ordered association list\<close>

text \<open>
  A JavaScript \<open>Map\<close> iterates its keys in insertion order; \<open>set\<close> on a key that is
  present replaces the value in place, \<open>set\<close> on a new key appends it, \<open>delete\<close>
  removes the key. The caches and queues below depend on that order, so a \<open>Map\<close> is an
  association list, oldest insertion first.
\<close>

type_synonym ('k, 'v) jsmap = "('k \<times> 'v) list"

definition map_get :: "('k, 'v) jsmap \<Rightarrow> 'k \<Rightarrow> 'v option" where
  "map_get m k = map_of m k"

definition map_has :: "('k, 'v) jsmap \<Rightarrow> 'k \<Rightarrow> bool" where
  "map_has m k = (k \<in> set (map fst m))"

definition map_delete :: "'k \<Rightarrow> ('k, 'v) jsmap \<Rightarrow> ('k, 'v) jsmap" where
  "map_delete k m = filter (\<lambda>p. fst p \<noteq> k) m"

definition map_set :: "'k \<Rightarrow> 'v \<Rightarrow> ('k, 'v) jsmap \<Rightarrow> ('k, 'v) jsmap" where
  "map_set k v m =
     (if map_has m k then map (\<lambda>p. if fst p = k then (k, v) else p) m else m @ [(k, v)])"

definition map_size :: "('k, 'v) jsmap \<Rightarrow> int" where
  "map_size m = int (length m)"

section \<open>JavaScript numbers that are not integers: IEEE 754 doubles\<close>

text \<open>
  A JavaScript number is a binary64 floating-point value. A double is modelled by the
  rational it denotes, and every arithmetic operation returns the exact result rounded
  to the nearest double, ties to the even significand, as IEEE 754 prescribes.
  \<open>expo x\<close> is the binary exponent of a positive \<open>x\<close> (\<open>2 ^ expo x \<le> x < 2 ^ (expo x + 1)\<close>),
  and a double with that exponent is a multiple of \<open>2 ^ (expo x - 52)\<close>. The exponent range
  is not bounded here: the numbers of this program stay far inside the normal range
  of binary64. Integers below \<open>2 ^ 53\<close> in magnitude are doubles, so the clock readings
  (\<open>Date.now()\<close> is at most 8.64e15) and their differences are exact.
\<close>

function expo_up :: "rat \<Rightarrow> int" where
  "expo_up x = (if x < 2 then 0 else 1 + expo_up (x / 2))"
  by pat_completeness auto
termination
proof (relation "measure (\<lambda>x. nat \<lfloor>x\<rfloor>)")
  show "wf (measure (\<lambda>x::rat. nat \<lfloor>x\<rfloor>))" by simp
next
  fix x :: rat assume "\<not> x < 2"
  then have x: "2 \<le> x" by simp
  have "x / 2 \<le> x - 1" using x by simp
  then have "\<lfloor>x / 2\<rfloor> \<le> \<lfloor>x - 1\<rfloor>" by (rule floor_mono)
  then have "\<lfloor>x / 2\<rfloor> < \<lfloor>x\<rfloor>" by simp
  moreover have "0 < \<lfloor>x\<rfloor>" using x by simp
  ultimately show "(x / 2, x) \<in> measure (\<lambda>x. nat \<lfloor>x\<rfloor>)" by simp
qed

function expo_down :: "rat \<Rightarrow> int" where
  "expo_down x = (if x \<le> 0 \<or> 1 \<le> x then 0 else expo_down (x * 2) - 1)"
  by pat_completeness auto
termination
proof (relation "measure (\<lambda>x. nat \<lceil>1 / x\<rceil>)")
  show "wf (measure (\<lambda>x::rat. nat \<lceil>1 / x\<rceil>))" by simp
next
  fix x :: rat assume "\<not> (x \<le> 0 \<or> 1 \<le> x)"
  then have x: "0 < x" "x < 1" by simp_all
  have y: "1 < 1 / x" using x by simp
  then have c: "2 \<le> \<lceil>1 / x\<rceil>" by (simp add: le_ceiling_iff) 
  have "1 / x \<le> of_int \<lceil>1 / x\<rceil>" by (rule le_of_int_ceiling)
  then have "1 / (x * 2) \<le> of_int \<lceil>1 / x\<rceil> / 2" by simp
  also have "\<dots> \<le> of_int (\<lceil>1 / x\<rceil> - 1)" using c by simp
  finally have "\<lceil>1 / (x * 2)\<rceil> \<le> \<lceil>1 / x\<rceil> - 1" by (rule ceiling_le)
  then have "nat \<lceil>1 / (x * 2)\<rceil> < nat \<lceil>1 / x\<rceil>" using c by linarith
  then show "(x * 2, x) \<in> measure (\<lambda>x. nat \<lceil>1 / x\<rceil>)" by (simp only: in_measure)
qed

definition expo :: "rat \<Rightarrow> int" where
  "expo x = (if 1 \<le> x then expo_up x else expo_down x)"

definition round_even :: "rat \<Rightarrow> int" where
  "round_even y =
     (let f = \<lfloor>y\<rfloor>; d = y - of_int f
      in if d < 1 / 2 then f else if 1 / 2 < d then f + 1 else if even f then f else f + 1)"

definition fl :: "rat \<Rightarrow> rat" where
  "fl x =
     (if x = 0 then 0
      else (let ulp = 2 powi (expo \<bar>x\<bar> - 52)
            in sgn x * of_int (round_even (\<bar>x\<bar> / ulp)) * ulp))"

text \<open>The four operations \<open>+\<close>, \<open>-\<close>, \<open>*\<close> and \<open>/\<close> on doubles.\<close>

definition dadd :: "rat \<Rightarrow> rat \<Rightarrow> rat" where
  "dadd x y = fl (x + y)"

definition dsub :: "rat \<Rightarrow> rat \<Rightarrow> rat" where
  "dsub x y = fl (x - y)"

definition dmul :: "rat \<Rightarrow> rat \<Rightarrow> rat" where
  "dmul x y = fl (x * y)"

definition ddiv :: "rat \<Rightarrow> rat \<Rightarrow> rat" where
  "ddiv x y = fl (x / y)"

section \<open>LRU cache (src/utils/lru-cache.utils.ts)\<close>

text \<open>
  \<open>Date.now()\<close> is an integer number of milliseconds; every operation takes the clock
  reading \<open>now\<close> as an argument (an operation is synchronous: where it reads the clock
  more than once, the readings are taken to agree). The counters start at 0 and are only
  ever incremented or reset to 0, so they are natural numbers (a double counts exactly
  up to \<open>2 ^ 53\<close>). The hit rate is a double: each of its four operations rounds as in
  the preceding section.
\<close>

record 'v CacheEntry =
  entry_value :: 'v
  timestamp :: int
  lastAccessed :: int

record Stats =
  hits :: nat
  misses :: nat
  evictions :: nat

record 'v LRUCache =
  cache :: "(string, 'v CacheEntry) jsmap"
  capacity :: int
  ttl :: int
  stats :: Stats

record CacheStats =
  cs_hits :: nat
  cs_misses :: nat
  currentSize :: int
  totalRequests :: nat
  hitRate :: rat
  cs_evictions :: nat

definition LRUCache_new :: "int \<Rightarrow> int \<Rightarrow> 'v LRUCache" where
  "LRUCache_new cap ttlSeconds =
     \<lparr>cache = [], capacity = cap, ttl = ttlSeconds * 1000,
      stats = \<lparr>hits = 0, misses = 0, evictions = 0\<rparr>\<rparr>"

definition isExpired :: "'v LRUCache \<Rightarrow> int \<Rightarrow> 'v CacheEntry \<Rightarrow> bool" where
  "isExpired c now entry = (now - timestamp entry > ttl c)"

definition lru_get :: "string \<Rightarrow> int \<Rightarrow> 'v LRUCache \<Rightarrow> 'v option \<times> 'v LRUCache" where
  "lru_get key now c =
     (case map_get (cache c) key of
        None \<Rightarrow> (None, c\<lparr>stats := (stats c)\<lparr>misses := misses (stats c) + 1\<rparr>\<rparr>)
      | Some entry \<Rightarrow>
          if isExpired c now entry
          then (None, c\<lparr>cache := map_delete key (cache c),
                         stats := (stats c)\<lparr>misses := misses (stats c) + 1\<rparr>\<rparr>)
          else (Some (entry_value entry),
                c\<lparr>cache := map_set key (entry\<lparr>lastAccessed := now\<rparr>)
                                 (map_delete key (cache c)),
                  stats := (stats c)\<lparr>hits := hits (stats c) + 1\<rparr>\<rparr>))"

text \<open>
  In \<open>set\<close> the victim is \<open>this.cache.keys().next().value\<close>, guarded by
  \<open>if (firstKey)\<close>: the guard is false when the map is empty (\<open>undefined\<close>) and also
  when the first key is the empty string, which is falsy in JavaScript.
\<close>

definition lru_set :: "string \<Rightarrow> 'v \<Rightarrow> int \<Rightarrow> 'v LRUCache \<Rightarrow> 'v LRUCache" where
  "lru_set key v now c =
     (let c1 =
        (if map_has (cache c) key then c\<lparr>cache := map_delete key (cache c)\<rparr>
         else if map_size (cache c) \<ge> capacity c then
           (case cache c of
              [] \<Rightarrow> c
            | (firstKey, _) # _ \<Rightarrow>
                if firstKey \<noteq> [] then
                  c\<lparr>cache := map_delete firstKey (cache c),
                    stats := (stats c)\<lparr>evictions := evictions (stats c) + 1\<rparr>\<rparr>
                else c)
         else c)
      in c1\<lparr>cache := map_set key \<lparr>entry_value = v, timestamp = now, lastAccessed = now\<rparr>
                             (cache c1)\<rparr>)"

definition lru_clear :: "'v LRUCache \<Rightarrow> 'v LRUCache" where
  "lru_clear c = c\<lparr>cache := []\<rparr>"

text \<open>\<open>Math.round\<close> rounds to the nearest integer, halves upwards.\<close>

definition Math_round :: "rat \<Rightarrow> int" where
  "Math_round x = \<lfloor>x + 1 / 2\<rfloor>"

definition lru_getStats :: "'v LRUCache \<Rightarrow> CacheStats" where
  "lru_getStats c =
     (let total = hits (stats c) + misses (stats c);
          rate = (if total > 0 then dmul (ddiv (of_nat (hits (stats c))) (of_nat total)) 100 else 0)
      in \<lparr>cs_hits = hits (stats c), cs_misses = misses (stats c),
          currentSize = map_size (cache c), totalRequests = total,
          hitRate = ddiv (of_int (Math_round (dmul rate 100))) 100,
          cs_evictions = evictions (stats c)\<rparr>)"

definition resetStats :: "'v LRUCache \<Rightarrow> 'v LRUCache" where
  "resetStats c = c\<lparr>stats := \<lparr>hits = 0, misses = 0, evictions = 0\<rparr>\<rparr>"

definition lru_has :: "string \<Rightarrow> int \<Rightarrow> 'v LRUCache \<Rightarrow> bool \<times> 'v LRUCache" where
  "lru_has key now c =
     (case map_get (cache c) key of
        None \<Rightarrow> (False, c)
      | Some entry \<Rightarrow>
          if isExpired c now entry then (False, c\<lparr>cache := map_delete key (cache c)\<rparr>)
          else (True, c))"

text \<open>
  The background sweep: collect the keys whose age exceeds the TTL, then delete each.
\<close>

definition keysToDelete :: "int \<Rightarrow> 'v LRUCache \<Rightarrow> string list" where
  "keysToDelete now c =
     map fst (filter (\<lambda>p. now - timestamp (snd p) > ttl c) (cache c))"

definition cleanupStaleEntries :: "int \<Rightarrow> 'v LRUCache \<Rightarrow> 'v LRUCache" where
  "cleanupStaleEntries now c = c\<lparr>cache := fold map_delete (keysToDelete now c) (cache c)\<rparr>"

definition lru_keys :: "'v LRUCache \<Rightarrow> string list" where
  "lru_keys c = map fst (cache c)"

definition lru_size :: "'v LRUCache \<Rightarrow> int" where
  "lru_size c = map_size (cache c)"

text \<open>A replay of cache operations, each with the clock reading at which it runs.\<close>

datatype 'v cache_op =
    Get string int
  | Set string 'v int
  | Has string int
  | Clear
  | Sweep int
  | ResetStats

fun apply_cache_op :: "'v cache_op \<Rightarrow> 'v LRUCache \<Rightarrow> 'v LRUCache" where
  "apply_cache_op (Get k now) c = snd (lru_get k now c)"
| "apply_cache_op (Set k v now) c = lru_set k v now c"
| "apply_cache_op (Has k now) c = snd (lru_has k now c)"
| "apply_cache_op Clear c = lru_clear c"
| "apply_cache_op (Sweep now) c = cleanupStaleEntries now c"
| "apply_cache_op ResetStats c = resetStats c"

definition run_cache :: "'v cache_op list \<Rightarrow> 'v LRUCache \<Rightarrow> 'v LRUCache" where
  "run_cache ops c = fold apply_cache_op ops c"

section \<open>Rate limiter (rate-limiter.middleware.ts)\<close>

text \<open>
  The steady pool holds fractions of a token: \<open>tokens\<close> is a double, and the refill and
  the status arithmetic on it is the double arithmetic above. The burst pool and the
  times are integers (milliseconds); as in the cache, the clock readings within one call
  agree and are the argument \<open>now\<close>. The four parameters are private fields assigned
  once, in the constructor.
\<close>

record TokenBucket =
  tokens :: rat
  lastRefill :: int
  burstTokens :: int
  lastBurstRefill :: int

record RateLimiter =
  buckets :: "string \<rightharpoonup> TokenBucket"

definition maxTokens :: rat where
  "maxTokens = 10"

definition refillRate :: rat where
  "refillRate = ddiv 10 (dmul 60 1000)"

definition burstCapacity :: int where
  "burstCapacity = 5"

definition burstWindow :: int where
  "burstWindow = 10 * 1000"

definition RateLimiter_new :: RateLimiter where
  "RateLimiter_new = \<lparr>buckets = Map.empty\<rparr>"

text \<open>
  The request fields \<open>getClientId\<close> reads. \<open>a || b\<close> skips a header that is missing
  and also one that is the empty string.
\<close>

record Request =
  x_forwarded_for :: "string option"
  x_real_ip :: "string option"
  remoteAddress :: "string option"

definition or_else :: "string option \<Rightarrow> string \<Rightarrow> string" where
  "or_else h d = (case h of None \<Rightarrow> d | Some v \<Rightarrow> if v \<noteq> [] then v else d)"

definition getClientId :: "Request \<Rightarrow> string" where
  "getClientId req =
     or_else (x_forwarded_for req)
       (or_else (x_real_ip req) (or_else (remoteAddress req) ''unknown''))"

definition getBucket :: "string \<Rightarrow> int \<Rightarrow> RateLimiter \<Rightarrow> TokenBucket \<times> RateLimiter" where
  "getBucket clientId now rl =
     (case buckets rl clientId of
        Some bucket \<Rightarrow> (bucket, rl)
      | None \<Rightarrow>
          (let bucket = \<lparr>tokens = maxTokens, lastRefill = now,
                         burstTokens = burstCapacity, lastBurstRefill = now\<rparr>
           in (bucket, rl\<lparr>buckets := (buckets rl)(clientId \<mapsto> bucket)\<rparr>)))"

definition refillTokens :: "int \<Rightarrow> TokenBucket \<Rightarrow> TokenBucket" where
  "refillTokens now bucket =
     (let timeSinceRefill = now - lastRefill bucket;
          tokensToAdd = dmul (of_int timeSinceRefill) refillRate
      in bucket\<lparr>tokens := min maxTokens (dadd (tokens bucket) tokensToAdd),
                lastRefill := now\<rparr>)"

definition refillBurstTokens :: "int \<Rightarrow> TokenBucket \<Rightarrow> TokenBucket" where
  "refillBurstTokens now bucket =
     (let timeSinceBurstRefill = now - lastBurstRefill bucket
      in if timeSinceBurstRefill \<ge> burstWindow
         then bucket\<lparr>burstTokens := burstCapacity, lastBurstRefill := now\<rparr>
         else bucket)"

text \<open>
  The bucket is an object held by the map, so every assignment to it is visible through
  the map: the model stores the updated bucket back under the client's key.
\<close>

definition allowRequest :: "string \<Rightarrow> int \<Rightarrow> RateLimiter \<Rightarrow> bool \<times> RateLimiter" where
  "allowRequest clientId now rl =
     (let (bucket0, rl1) = getBucket clientId now rl;
          bucket = refillBurstTokens now (refillTokens now bucket0)
      in if burstTokens bucket > 0 then
           (True, rl1\<lparr>buckets := (buckets rl1)(clientId \<mapsto>
              bucket\<lparr>burstTokens := burstTokens bucket - 1,
                      tokens := max 0 (dsub (tokens bucket) 1)\<rparr>)\<rparr>)
         else if tokens bucket \<ge> 1 then
           (True, rl1\<lparr>buckets := (buckets rl1)(clientId \<mapsto>
              bucket\<lparr>tokens := dsub (tokens bucket) 1\<rparr>)\<rparr>)
         else (False, rl1\<lparr>buckets := (buckets rl1)(clientId \<mapsto> bucket)\<rparr>))"

definition rl_cleanup :: "int \<Rightarrow> RateLimiter \<Rightarrow> RateLimiter" where
  "rl_cleanup now rl =
     rl\<lparr>buckets := (\<lambda>clientId.
        case buckets rl clientId of
          None \<Rightarrow> None
        | Some bucket \<Rightarrow> if now - lastRefill bucket > 5 * 60 * 1000 then None else Some bucket)\<rparr>"

record Status =
  remaining :: int
  burstRemaining :: int
  resetIn :: int

definition getStatus :: "Request \<Rightarrow> int \<Rightarrow> RateLimiter \<Rightarrow> Status \<times> RateLimiter" where
  "getStatus req now rl =
     (let clientId = getClientId req;
          (bucket0, rl1) = getBucket clientId now rl;
          bucket = refillBurstTokens now (refillTokens now bucket0);
          reset = \<lceil>ddiv (dsub maxTokens (tokens bucket)) refillRate\<rceil>
      in (\<lparr>remaining = \<lfloor>tokens bucket\<rfloor>, burstRemaining = burstTokens bucket,
           resetIn = reset\<rparr>,
          rl1\<lparr>buckets := (buckets rl1)(clientId \<mapsto> bucket)\<rparr>))"

text \<open>Requests of one client at the given clock readings, oldest first, with their verdicts.\<close>

fun requests :: "string \<Rightarrow> int list \<Rightarrow> RateLimiter \<Rightarrow> bool list \<times> RateLimiter" where
  "requests clientId [] rl = ([], rl)"
| "requests clientId (now # nows) rl =
     (let (ok, rl1) = allowRequest clientId now rl;
          (oks, rl2) = requests clientId nows rl1
      in (ok # oks, rl2))"

section \<open>Single-flight queue (async-queue.utils.ts)\<close>

text \<open>
  The key of a fetch is \<open>id\<close> in the source and \<open>tid\<close> here (\<open>id\<close> is HOL's
  identity function). A task function \<open>() => Promise<T>\<close> is named by a number; calling
  it is recorded in the log \<open>calls\<close> (the instrumented call counter of a fetch function
  \<open>f\<close> is the number of times \<open>f\<close> occurs there). As its type says, the call returns a
  promise (it does not throw), and the promise settles in a later turn of the event loop. Every \<open>enqueue\<close> creates a new promise, named by the counter
  \<open>next_promise\<close>; a queued task holds that promise's \<open>resolve\<close> and \<open>reject\<close>, here
  the promise's name. \<open>settled\<close> logs every call of a \<open>resolve\<close> or \<open>reject\<close> in
  order; a promise keeps the first outcome it is given.
\<close>

datatype 'v outcome = Resolved 'v | Rejected string

record QueueTask =
  qt_id :: string
  execute :: nat
  resolver :: nat

text \<open>
  \<open>queue\<close>, \<open>processing\<close>, \<open>concurrencyLimit\<close> and \<open>activeCount\<close> are the fields of the
  class. \<open>running\<close> holds the activations of \<open>processTask\<close> that are suspended at
  \<open>await task()\<close>, each with its \<open>id\<close> and the promise it will settle.
\<close>

record 'v AsyncQueue =
  queue :: "(string, QueueTask list) jsmap"
  processing :: "string list"
  concurrencyLimit :: int
  activeCount :: int
  running :: "(string \<times> nat) list"
  calls :: "nat list"
  settled :: "(nat \<times> 'v outcome) list"
  next_promise :: nat

definition AsyncQueue_new :: "int \<Rightarrow> 'v AsyncQueue" where
  "AsyncQueue_new limit =
     \<lparr>queue = [], processing = [], concurrencyLimit = limit, activeCount = 0,
      running = [], calls = [], settled = [], next_promise = 0\<rparr>"

definition set_add :: "string \<Rightarrow> string list \<Rightarrow> string list" where
  "set_add x xs = (if x \<in> set xs then xs else xs @ [x])"

definition set_delete :: "string \<Rightarrow> string list \<Rightarrow> string list" where
  "set_delete x xs = removeAll x xs"

definition promise_outcome :: "'v AsyncQueue \<Rightarrow> nat \<Rightarrow> 'v outcome option" where
  "promise_outcome s p = map_of (settled s) p"

text \<open>\<open>resolve(result)\<close> for a fulfilled outcome, \<open>reject(error)\<close> for a rejected one.\<close>

definition deliver :: "'v outcome \<Rightarrow> nat \<Rightarrow> 'v AsyncQueue \<Rightarrow> 'v AsyncQueue" where
  "deliver out p s = s\<lparr>settled := settled s @ [(p, out)]\<rparr>"

text \<open>\<open>existingQueue = this.queue.get(id) || []; existingQueue.push(...); this.queue.set(id, existingQueue)\<close>\<close>

definition push_waiter :: "string \<Rightarrow> nat \<Rightarrow> nat \<Rightarrow> 'v AsyncQueue \<Rightarrow> 'v AsyncQueue" where
  "push_waiter tid task p s =
     (let existingQueue = (case map_get (queue s) tid of None \<Rightarrow> [] | Some ws \<Rightarrow> ws)
      in s\<lparr>queue := map_set tid (existingQueue @ [\<lparr>qt_id = tid, execute = task, resolver = p\<rparr>])
                        (queue s)\<rparr>)"

text \<open>\<open>processTask\<close> up to its \<open>await\<close>: the task function is called.\<close>

definition processTask_begin :: "string \<Rightarrow> nat \<Rightarrow> nat \<Rightarrow> 'v AsyncQueue \<Rightarrow> 'v AsyncQueue" where
  "processTask_begin tid task p s =
     s\<lparr>calls := calls s @ [task], running := running s @ [(tid, p)]\<rparr>"

definition enqueue :: "string \<Rightarrow> nat \<Rightarrow> 'v AsyncQueue \<Rightarrow> nat \<times> 'v AsyncQueue" where
  "enqueue tid task s0 =
     (let p = next_promise s0;
          s = s0\<lparr>next_promise := p + 1\<rparr>
      in if tid \<in> set (processing s) then (p, push_waiter tid task p s)
         else
           (let s1 = s\<lparr>processing := set_add tid (processing s)\<rparr>
            in if activeCount s1 < concurrencyLimit s1
               then (p, processTask_begin tid task p (s1\<lparr>activeCount := activeCount s1 + 1\<rparr>))
               else (p, push_waiter tid task p s1)))"

text \<open>
  \<open>processNext\<close>: the first entry of the queue, in the map's order, whose key is not in
  \<open>processing\<close> and whose list is not empty; its first task is shifted off and started.
\<close>

definition processNext :: "'v AsyncQueue \<Rightarrow> 'v AsyncQueue" where
  "processNext s =
     (if activeCount s \<ge> concurrencyLimit s then s
      else
        (case find (\<lambda>(tid, tasks). tid \<notin> set (processing s) \<and> length tasks > 0) (queue s) of
           None \<Rightarrow> s
         | Some (tid, tasks) \<Rightarrow>
             (case tasks of
                [] \<Rightarrow> s
              | task # rest \<Rightarrow>
                  (let s1 = s\<lparr>queue := map_set tid rest (queue s),
                              processing := set_add tid (processing s),
                              activeCount := activeCount s + 1\<rparr>;
                       s2 = (if length rest = 0 then s1\<lparr>queue := map_delete tid (queue s1)\<rparr>
                             else s1)
                   in processTask_begin tid (execute task) (resolver task) s2))))"

text \<open>
  \<open>processTask\<close> from its \<open>await\<close> on, when the task's promise has settled with \<open>out\<close>:
  the \<open>try\<close> branch for a fulfilled outcome and the \<open>catch\<close> branch for a rejected one
  do the same with \<open>resolve\<close> and \<open>reject\<close>; then the \<open>finally\<close> block.
\<close>

definition processTask_resume ::
    "string \<Rightarrow> nat \<Rightarrow> 'v outcome \<Rightarrow> 'v AsyncQueue \<Rightarrow> 'v AsyncQueue" where
  "processTask_resume tid p out s =
     (let s1 = deliver out p s;
          s2 = (case map_get (queue s1) tid of
                  None \<Rightarrow> s1
                | Some waitingTasks \<Rightarrow>
                    if length waitingTasks > 0
                    then (fold (\<lambda>waitingTask. deliver out (resolver waitingTask))
                            waitingTasks s1)\<lparr>queue := map_delete tid (queue s1)\<rparr>
                    else s1);
          s3 = s2\<lparr>processing := set_delete tid (processing s2),
                   activeCount := activeCount s2 - 1\<rparr>
      in processNext s3)"

record QueueStats =
  queueSize :: nat
  processingCount :: nat
  qs_activeCount :: int

definition aq_getStats :: "'v AsyncQueue \<Rightarrow> QueueStats" where
  "aq_getStats s =
     \<lparr>queueSize = fold (\<lambda>tasks totalQueued. totalQueued + length tasks) (map snd (queue s)) 0,
      processingCount = length (processing s),
      qs_activeCount = activeCount s\<rparr>"

definition isProcessing :: "'v AsyncQueue \<Rightarrow> string \<Rightarrow> bool" where
  "isProcessing s tid = (tid \<in> set (processing s))"

definition aq_clear :: "'v AsyncQueue \<Rightarrow> 'v AsyncQueue" where
  "aq_clear s = s\<lparr>queue := []\<rparr>"

text \<open>
  What can happen to a queue: a caller enqueues a fetch, the task of the in-flight fetch
  for a key settles (nothing happens when no fetch for that key is in flight), or the
  queue is cleared.
\<close>

datatype 'v event =
    Enqueue string nat
  | Settle string "'v outcome"
  | ClearQueue

fun step :: "'v event \<Rightarrow> 'v AsyncQueue \<Rightarrow> 'v AsyncQueue" where
  "step (Enqueue tid task) s = snd (enqueue tid task s)"
| "step (Settle tid out) s =
     (case find (\<lambda>r. fst r = tid) (running s) of
        None \<Rightarrow> s
      | Some r \<Rightarrow> processTask_resume tid (snd r) out (s\<lparr>running := remove1 r (running s)\<rparr>))"
| "step ClearQueue s = aq_clear s"

definition exec :: "'v event list \<Rightarrow> 'v AsyncQueue \<Rightarrow> 'v AsyncQueue" where
  "exec evs s = fold step evs s"

text \<open>
  \<open>n\<close> callers, one after the other in the same turn of the event loop, each calling
  \<open>enqueue(tid, task)\<close>: the promises they get back, in order, and the queue afterwards.
\<close>

fun enqueue_many :: "string \<Rightarrow> nat \<Rightarrow> nat \<Rightarrow> 'v AsyncQueue \<Rightarrow> nat list \<times> 'v AsyncQueue" where
  "enqueue_many tid task 0 s = ([], s)"
| "enqueue_many tid task (Suc n) s =
     (let (p, s1) = enqueue tid task s;
          (ps, s2) = enqueue_many tid task n s1
      in (p # ps, s2))"

text \<open>The promises held by queued waiters, and those of the suspended activations.\<close>

definition queued_promises :: "'v AsyncQueue \<Rightarrow> nat list" where
  "queued_promises s = map resolver (concat (map snd (queue s)))"

definition running_promises :: "'v AsyncQueue \<Rightarrow> nat list" where
  "running_promises s = map snd (running s)"

section \<open>Auxiliary notions for the proofs\<close>


text \<open>
  A cache is well formed when its keys are distinct, none of them is the empty string,
  its size is within its capacity and the capacity is at least 1.
\<close>

definition keys_wf :: "string list \<Rightarrow> int \<Rightarrow> bool" where
  "keys_wf ks cap \<longleftrightarrow> distinct ks \<and> [] \<notin> set ks \<and> int (length ks) \<le> cap \<and> 1 \<le> cap"

definition cache_wf :: "'v LRUCache \<Rightarrow> bool" where
  "cache_wf c \<longleftrightarrow> distinct (map fst (cache c)) \<and> [] \<notin> set (map fst (cache c))
      \<and> map_size (cache c) \<le> capacity c \<and> 1 \<le> capacity c"

fun set_keys_nonempty :: "'v cache_op \<Rightarrow> bool" where
  "set_keys_nonempty (Set k v now) = (k \<noteq> [])"
| "set_keys_nonempty _ = True"

text \<open>
  The bucket of a client after \<open>i\<close> requests that all arrived at the clock reading
  \<open>now\<close> at which the bucket was created: each of the first 5 has taken a burst token
  and a steady token, each of the next 5 a steady token.
\<close>

definition bucket_after :: "nat \<Rightarrow> int \<Rightarrow> TokenBucket" where
  "bucket_after i now =
     \<lparr>tokens = of_int (max 0 (10 - int i)), lastRefill = now,
      burstTokens = max 0 (5 - int i), lastBurstRefill = now\<rparr>"

text \<open>The client's bucket after the two refill steps at \<open>now\<close>.\<close>

definition refilled :: "string \<Rightarrow> int \<Rightarrow> RateLimiter \<Rightarrow> TokenBucket" where
  "refilled clientId now rl =
     refillBurstTokens now (refillTokens now (fst (getBucket clientId now rl)))"

text \<open>The tasks queued under a key.\<close>

definition waiters :: "'v AsyncQueue \<Rightarrow> string \<Rightarrow> QueueTask list" where
  "waiters s tid = (case map_get (queue s) tid of None \<Rightarrow> [] | Some ws \<Rightarrow> ws)"

text \<open>
  The invariant of the queue: every queued key is marked as processing, no queued list
  is empty, the keys of the queue are distinct, every suspended activation's key is marked
  as processing and occurs once, \<open>activeCount\<close> is the number of suspended
  activations and is within the limit (or 0 for a negative limit), and every promise
  created so far is in at most one place: held by a queued task, held by a suspended
  activation, or settled once.
\<close>

definition aq_inv :: "'v AsyncQueue \<Rightarrow> bool" where
  "aq_inv s \<longleftrightarrow>
     set (map fst (queue s)) \<subseteq> set (processing s)
   \<and> [] \<notin> set (map snd (queue s))
   \<and> distinct (map fst (queue s))
   \<and> set (map fst (running s)) \<subseteq> set (processing s)
   \<and> distinct (map fst (running s))
   \<and> activeCount s = int (length (running s))
   \<and> activeCount s \<le> max 0 (concurrencyLimit s)
   \<and> mset (queued_promises s) + mset (running_promises s) + mset (map fst (settled s))
        \<subseteq># mset_set {..<next_promise s}"

text \<open>
  \<open>gone s p\<close>: promise \<open>p\<close> was created, is not settled, and nothing in the queue or
  among the suspended activations holds its \<open>resolve\<close> or \<open>reject\<close>.
\<close>

definition gone :: "'v AsyncQueue \<Rightarrow> nat \<Rightarrow> bool" where
  "gone s p \<longleftrightarrow> p \<notin> set (queued_promises s) \<and> p \<notin> set (running_promises s)
      \<and> p \<notin> set (map fst (settled s)) \<and> p < next_promise s"

text \<open>
  \<open>stuck s tid p\<close>: the key \<open>tid\<close> is marked as processing although no activation
  for it is suspended, and the unsettled promise \<open>p\<close> is held by no suspended
  activation and by no task queued under another key.
\<close>

definition stuck :: "'v AsyncQueue \<Rightarrow> string \<Rightarrow> nat \<Rightarrow> bool" where
  "stuck s tid p \<longleftrightarrow> tid \<in> set (processing s) \<and> tid \<notin> set (map fst (running s))
      \<and> p \<notin> set (running_promises s) \<and> p \<notin> set (map fst (settled s)) \<and> p < next_promise s
      \<and> (\<forall>e \<in> set (queue s). fst e \<noteq> tid \<longrightarrow> p \<notin> set (map resolver (snd e)))"

section \<open>Properties of the Map operations\<close>

lemma fold_map_delete: "fold map_delete ks m = filter (\<lambda>p. fst p \<notin> set ks) m"
proof (induction ks arbitrary: m)
  case Nil then show ?case by simp
next
  case (Cons k ks)
  have "fold map_delete (k # ks) m = filter (\<lambda>p. fst p \<notin> set ks) (map_delete k m)"
    using Cons.IH by simp
  also have "\<dots> = filter (\<lambda>p. fst p \<notin> set (k # ks)) m"
    unfolding map_delete_def by (induction m) auto
  finally show ?case .
qed

lemma map_of_filter_keys:
  "map_of (filter (\<lambda>p. P (fst p)) m) k = (if P k then map_of m k else None)"
  by (induction m) auto

lemma map_get_delete_same: "map_get (map_delete k m) k = None"
  unfolding map_get_def map_delete_def using map_of_filter_keys[of "\<lambda>x. x \<noteq> k" m k] by simp

lemma map_has_iff: "map_has m k \<longleftrightarrow> map_get m k \<noteq> None"
  unfolding map_has_def map_get_def by (simp add: map_of_eq_None_iff)

lemma map_get_set_same: "map_get (map_set k v m) k = Some v"
  unfolding map_get_def map_set_def map_has_def
  by (induction m) (auto split: if_splits)







section \<open>Cache: expiry\<close>










section \<open>Double arithmetic\<close>

declare expo_up.simps [simp del] expo_down.simps [simp del]

lemma expo_up_bounds:
  "1 \<le> x \<Longrightarrow> 0 \<le> expo_up x \<and> 2 powi (expo_up x) \<le> x \<and> x < 2 powi (expo_up x + 1)"
proof (induction x rule: expo_up.induct)
  case (1 x)
  show ?case
  proof (cases "x < 2")
    case True
    then show ?thesis using "1.prems" by (simp add: expo_up.simps[of x])
  next
    case False
    then have h: "1 \<le> x / 2" by simp
    note ih = "1.IH"[OF False h]
    have e: "expo_up x = 1 + expo_up (x / 2)" using False by (simp add: expo_up.simps[of x])
    have p: "(2::rat) powi (1 + expo_up (x / 2)) = 2 * 2 powi (expo_up (x / 2))"
      by (simp add: power_int_add)
    have p2: "(2::rat) powi (1 + expo_up (x / 2) + 1) = 2 * 2 powi (expo_up (x / 2) + 1)"
      by (simp add: power_int_add)
    show ?thesis unfolding e p p2 using ih by auto
  qed
qed

lemma expo_down_bounds:
  "0 < x \<Longrightarrow> x < 1 \<Longrightarrow> 2 powi (expo_down x) \<le> x \<and> x < 2 powi (expo_down x + 1)"
proof (induction x rule: expo_down.induct)
  case (1 x)
  have e: "expo_down x = expo_down (x * 2) - 1" using "1.prems" by (simp add: expo_down.simps[of x])
  have nc: "\<not> (x \<le> 0 \<or> 1 \<le> x)" using "1.prems" by simp
  show ?case
  proof (cases "x * 2 < 1")
    case True
    have ih: "2 powi (expo_down (x * 2)) \<le> x * 2 \<and> x * 2 < 2 powi (expo_down (x * 2) + 1)"
      using "1.IH"[OF nc] "1.prems" True by simp
    have p: "(2::rat) powi (expo_down (x * 2) - 1) = 2 powi (expo_down (x * 2)) / 2"
      by (simp add: power_int_diff)
    have p2: "(2::rat) powi (expo_down (x * 2) - 1 + 1) = 2 powi (expo_down (x * 2) + 1) / 2"
      by (simp add: power_int_add)
    show ?thesis unfolding e p p2 using ih by auto
  next
    case False
    then have "expo_down (x * 2) = 0" by (simp add: expo_down.simps[of "x * 2"])
    then show ?thesis unfolding e using False "1.prems" by simp
  qed
qed

lemma expo_bounds:
  assumes "0 < x"
  shows "2 powi (expo x) \<le> x \<and> x < 2 powi (expo x + 1)"
  using assms expo_up_bounds[of x] expo_down_bounds[of x] by (auto simp: expo_def)

lemma expo_unique:
  assumes "0 < x" "2 powi e \<le> x" "x < 2 powi (e + 1)"
  shows "expo x = e"
proof -
  have b: "2 powi (expo x) \<le> x" "x < 2 powi (expo x + 1)" using expo_bounds[OF assms(1)] by simp_all
  have "\<not> e + 1 \<le> expo x"
  proof
    assume "e + 1 \<le> expo x"
    then have "(2::rat) powi (e + 1) \<le> 2 powi (expo x)" by (intro power_int_increasing) simp_all
    then show False using b(1) assms(3) by linarith
  qed
  moreover have "\<not> expo x + 1 \<le> e"
  proof
    assume "expo x + 1 \<le> e"
    then have "(2::rat) powi (expo x + 1) \<le> 2 powi e" by (intro power_int_increasing) simp_all
    then show False using b(2) assms(2) by linarith
  qed
  ultimately show ?thesis by linarith
qed

lemma fl_eq:
  assumes "0 < x" "2 powi e \<le> x" "x < 2 powi (e + 1)"
  shows "fl x = of_int (round_even (x / 2 powi (e - 52))) * 2 powi (e - 52)"
  using assms expo_unique[OF assms] by (simp add: fl_def Let_def)

lemma fl_0 [simp]: "fl 0 = 0"
  by (simp add: fl_def)

lemma round_even_int [simp]: "round_even (of_int k) = k"
  by (simp add: round_even_def)

lemma round_even_error: "\<bar>of_int (round_even y) - y\<bar> \<le> 1 / 2"
proof -
  have "of_int \<lfloor>y\<rfloor> \<le> y" "y < of_int \<lfloor>y\<rfloor> + 1" by linarith+
  then show ?thesis unfolding round_even_def Let_def by (auto simp: abs_le_iff)
qed

lemma fl_exact:
  assumes "x \<noteq> 0" "\<bar>x\<bar> / 2 powi (expo \<bar>x\<bar> - 52) = of_int m"
  shows "fl x = x"
proof -
  have u: "(2::rat) powi (expo \<bar>x\<bar> - 52) \<noteq> 0" by simp
  have "of_int m * 2 powi (expo \<bar>x\<bar> - 52) = \<bar>x\<bar>"
    using assms(2) u by (simp add: field_simps)
  then have "fl x = sgn x * \<bar>x\<bar>"
    using assms by (simp add: fl_def Let_def mult.assoc)
  also have "\<dots> = x" by (rule sgn_mult_abs)
  finally show ?thesis .
qed

lemma fl_int:
  assumes "\<bar>n\<bar> < 2 ^ 53"
  shows "fl (of_int n) = of_int n"
proof (cases "n = 0")
  case True then show ?thesis by simp
next
  case False
  let ?a = "\<bar>of_int n :: rat\<bar>"
  let ?e = "expo ?a"
  have a1: "1 \<le> ?a" using False by (simp flip: of_int_abs add: of_int_1_le_iff)
  have a2: "?a < 2 ^ 53" using assms by (simp flip: of_int_abs add: of_int_less_iff[symmetric])
  have b: "2 powi ?e \<le> ?a" "?a < 2 powi (?e + 1)" using expo_bounds[of ?a] a1 by simp_all
  have e0: "0 \<le> ?e"
  proof (rule ccontr)
    assume "\<not> 0 \<le> ?e"
    then have "?e + 1 \<le> 0" by simp
    then have "(2::rat) powi (?e + 1) \<le> 2 powi 0" by (intro power_int_increasing) simp_all
    then show False using b(2) a1 by simp
  qed
  have e52: "?e \<le> 52"
  proof (rule ccontr)
    assume "\<not> ?e \<le> 52"
    then have "53 \<le> ?e" by simp
    then have "(2::rat) powi 53 \<le> 2 powi ?e" by (intro power_int_increasing) simp_all
    then show False using b(1) a2 by simp
  qed
  define k where "k = nat (52 - ?e)"
  have "?e - 52 = - int k" using e52 by (simp add: k_def)
  then have "(2::rat) powi (?e - 52) = inverse (2 ^ k)" by (simp add: power_int_minus)
  then have "?a / 2 powi (?e - 52) = of_int (\<bar>n\<bar> * 2 ^ k)" by (simp add: field_simps)
  then show ?thesis using False by (intro fl_exact[of _ "\<bar>n\<bar> * 2 ^ k"]) simp_all
qed

lemma fl_error: "\<bar>fl x - x\<bar> \<le> \<bar>x\<bar> / 2 ^ 53"
proof (cases "x = 0")
  case True then show ?thesis by simp
next
  case False
  let ?a = "\<bar>x\<bar>"
  let ?e = "expo ?a"
  let ?u = "(2::rat) powi (?e - 52)"
  let ?m = "round_even (?a / ?u)"
  have a: "0 < ?a" using False by simp
  have u: "0 < ?u" by simp
  have b: "2 powi ?e \<le> ?a" using expo_bounds[OF a] by simp
  have fx: "fl x = sgn x * (of_int ?m * ?u)" using False by (simp add: fl_def Let_def mult.assoc)
  have "x = sgn x * ?a" by (simp only: sgn_mult_abs)
  then have "fl x - x = sgn x * (of_int ?m * ?u) - sgn x * ?a" unfolding fx by simp
  then have "fl x - x = sgn x * (of_int ?m * ?u - ?a)" by (simp only: right_diff_distrib)
  then have "\<bar>fl x - x\<bar> = \<bar>of_int ?m * ?u - ?a\<bar>"
    using False by (simp add: abs_mult abs_sgn_eq)
  also have "of_int ?m * ?u - ?a = (of_int ?m - ?a / ?u) * ?u" using u by (simp add: field_simps)
  also have "\<bar>\<dots>\<bar> = \<bar>of_int ?m - ?a / ?u\<bar> * ?u" using u by (simp add: abs_mult)
  also have "\<dots> \<le> (1 / 2) * ?u"
    using round_even_error[of "?a / ?u"] u by (intro mult_right_mono) simp_all
  also have "(1 / 2) * ?u = 2 powi ?e / 2 ^ 53"
  proof -
    have "?u = 2 powi ?e * 2 powi (- 52)"
      using power_int_add[of "2::rat" ?e "- 52"] by simp
    then show ?thesis by simp
  qed
  also have "\<dots> \<le> ?a / 2 ^ 53" using b by (simp add: divide_right_mono)
  finally show ?thesis .
qed

lemma round_even_nonneg: "0 \<le> y \<Longrightarrow> 0 \<le> round_even y"
  by (simp add: round_even_def Let_def)

lemma round_even_le:
  assumes "y \<le> of_int k"
  shows "round_even y \<le> k"
proof (cases "y = of_int \<lfloor>y\<rfloor>")
  case True
  then have "round_even y = \<lfloor>y\<rfloor>" by (simp add: round_even_def Let_def)
  then show ?thesis using assms by (simp add: floor_le_iff)
next
  case False
  then have "of_int \<lfloor>y\<rfloor> < y" using of_int_floor_le[of y] by linarith
  then have "of_int \<lfloor>y\<rfloor> < (of_int k :: rat)" using assms by linarith
  then have "\<lfloor>y\<rfloor> + 1 \<le> k" by simp
  moreover have "round_even y \<le> \<lfloor>y\<rfloor> + 1" by (simp add: round_even_def Let_def)
  ultimately show ?thesis by linarith
qed

lemma fl_nonneg: "0 \<le> x \<Longrightarrow> 0 \<le> fl x"
proof (cases "x = 0")
  case True then show ?thesis by simp
next
  case False
  assume "0 \<le> x"
  then have x: "0 < x" using False by simp
  have "0 \<le> round_even (x / 2 powi (expo x - 52))" using x by (intro round_even_nonneg) simp
  then show ?thesis using x by (simp add: fl_def Let_def)
qed

lemma fl_le_int:
  assumes "0 \<le> x" "x \<le> of_int c" "c \<le> 2 ^ 52"
  shows "fl x \<le> of_int c"
proof (cases "x = 0")
  case True then show ?thesis using assms by simp
next
  case False
  then have x: "0 < x" using assms(1) by simp
  let ?e = "expo x"
  let ?u = "(2::rat) powi (?e - 52)"
  have b: "2 powi ?e \<le> x" using expo_bounds[OF x] by simp
  have e52: "?e \<le> 52"
  proof (rule ccontr)
    assume "\<not> ?e \<le> 52"
    then have "53 \<le> ?e" by simp
    then have "(2::rat) powi 53 \<le> 2 powi ?e" by (intro power_int_increasing) simp_all
    then have "(2::rat) ^ 53 \<le> of_int c" using b assms(2) by simp
    moreover have "(of_int c :: rat) \<le> 2 ^ 52" using assms(3) by (metis of_int_le_iff of_int_numeral of_int_power)
    ultimately show False by simp
  qed
  define k where "k = nat (52 - ?e)"
  have "?e - 52 = - int k" using e52 by (simp add: k_def)
  then have u: "?u = inverse (2 ^ k)" by (simp add: power_int_minus)
  have upos: "0 < ?u" by simp
  have "x / ?u \<le> of_int c / ?u" using assms(2) upos by (simp add: divide_right_mono)
  also have "of_int c / ?u = of_int (c * 2 ^ k)" unfolding u by (simp add: field_simps)
  finally have "round_even (x / ?u) \<le> c * 2 ^ k" by (rule round_even_le)
  then have "(of_int (round_even (x / ?u)) :: rat) \<le> of_int (c * 2 ^ k)" by (simp only: of_int_le_iff)
  then have "of_int (round_even (x / ?u)) * ?u \<le> of_int (c * 2 ^ k) * ?u"
    using upos by (simp add: mult_right_mono)
  also have "of_int (c * 2 ^ k) * ?u = of_int c" unfolding u by simp
  finally show ?thesis using x by (simp add: fl_def Let_def)
qed

section \<open>Cache: statistics\<close>

lemma Math_round_bounds:
  assumes "0 \<le> x" "x \<le> 10000"
  shows "0 \<le> Math_round x \<and> Math_round x \<le> 10000"
  using assms unfolding Math_round_def by (simp add: le_floor_iff floor_le_iff)

lemma hit_ratio_range:
  fixes h m :: nat
  assumes "h + m > 0"
  shows "0 \<le> (of_nat h :: rat) / of_nat (h + m) \<and> (of_nat h :: rat) / of_nat (h + m) \<le> 1"
proof -
  have "(of_nat h :: rat) \<le> of_nat (h + m)" by simp
  moreover have "(0::rat) < of_nat (h + m)" using assms by (simp only: of_nat_0_less_iff)
  ultimately show ?thesis by (simp add: divide_le_eq)
qed

lemma hitRate_range:
  fixes h m :: nat
  defines "rate \<equiv> (if h + m > 0 then dmul (ddiv (of_nat h) (of_nat (h + m))) 100 else 0)"
  shows "0 \<le> ddiv (of_int (Math_round (dmul rate 100))) 100
       \<and> ddiv (of_int (Math_round (dmul rate 100))) 100 \<le> 100
       \<and> (h + m = 0 \<longrightarrow> ddiv (of_int (Math_round (dmul rate 100))) 100 = 0)"
proof -
  have r: "0 \<le> rate \<and> rate \<le> 100"
  proof (cases "h + m > 0")
    case True
    let ?q = "(of_nat h :: rat) / of_nat (h + m)"
    have q: "0 \<le> ?q" "?q \<le> of_int 1" using hit_ratio_range[OF True] by simp_all
    have a: "0 \<le> fl ?q" "fl ?q \<le> of_int 1" using q fl_nonneg fl_le_int[of ?q 1] by simp_all
    then have "0 \<le> fl ?q * 100" "fl ?q * 100 \<le> of_int 100" by simp_all
    then have "0 \<le> fl (fl ?q * 100)" "fl (fl ?q * 100) \<le> of_int 100"
      using fl_nonneg fl_le_int[of "fl ?q * 100" 100] by simp_all
    then show ?thesis using True by (simp add: rate_def dmul_def ddiv_def)
  next
    case False then show ?thesis by (simp add: rate_def)
  qed
  then have "0 \<le> rate * 100" "rate * 100 \<le> of_int 10000" by simp_all
  then have "0 \<le> fl (rate * 100)" "fl (rate * 100) \<le> of_int 10000"
    using fl_nonneg fl_le_int[of "rate * 100" 10000] by simp_all
  then have s: "0 \<le> dmul rate 100" "dmul rate 100 \<le> 10000" by (simp_all add: dmul_def)
  have mr: "0 \<le> Math_round (dmul rate 100)" "Math_round (dmul rate 100) \<le> 10000"
    using Math_round_bounds[OF s] by simp_all
  have "(0::rat) \<le> of_int (Math_round (dmul rate 100))" using mr(1) by simp
  moreover have "(of_int (Math_round (dmul rate 100)) :: rat) \<le> 10000"
    using mr(2) by (metis of_int_le_iff of_int_numeral)
  ultimately have "0 \<le> of_int (Math_round (dmul rate 100)) / (100::rat)"
    "of_int (Math_round (dmul rate 100)) / (100::rat) \<le> of_int 100"
    by simp_all
  then have b: "0 \<le> fl (of_int (Math_round (dmul rate 100)) / 100)"
    "fl (of_int (Math_round (dmul rate 100)) / 100) \<le> of_int 100"
    using fl_nonneg fl_le_int[of "of_int (Math_round (dmul rate 100)) / 100" 100] by simp_all
  have "\<lfloor>(1::rat) / 2\<rfloor> = 0" by (rule floor_unique) simp_all
  then have z: "h + m = 0 \<longrightarrow> ddiv (of_int (Math_round (dmul rate 100))) 100 = 0"
    by (simp add: rate_def dmul_def ddiv_def Math_round_def)
  show ?thesis using b z by (simp add: ddiv_def)
qed

lemma getStats_facts:
  "totalRequests (lru_getStats c) = cs_hits (lru_getStats c) + cs_misses (lru_getStats c)
   \<and> cs_hits (lru_getStats c) = hits (stats c)
   \<and> cs_misses (lru_getStats c) = misses (stats c)
   \<and> 0 \<le> hitRate (lru_getStats c) \<and> hitRate (lru_getStats c) \<le> 100
   \<and> (totalRequests (lru_getStats c) = 0 \<longrightarrow> hitRate (lru_getStats c) = 0)
   \<and> stats (lru_clear c) = stats c"
  using hitRate_range[of "hits (stats c)" "misses (stats c)"]
  by (simp add: lru_getStats_def Let_def lru_clear_def)

text \<open>
  C7. After every sequence of cache operations on a new cache, \<open>getStats\<close> reports
  \<open>totalRequests = hits + misses\<close> and a \<open>hitRate\<close> between 0 and 100 that is 0 when
  there was no request; \<open>clear\<close> leaves the three counters as they are.
\<close>

theorem stats_invariant:
  "let c = run_cache ops (LRUCache_new cap ttlSeconds)
   in totalRequests (lru_getStats c) = cs_hits (lru_getStats c) + cs_misses (lru_getStats c)
   \<and> cs_hits (lru_getStats c) = hits (stats c)
   \<and> cs_misses (lru_getStats c) = misses (stats c)
   \<and> 0 \<le> hitRate (lru_getStats c) \<and> hitRate (lru_getStats c) \<le> 100
   \<and> (totalRequests (lru_getStats c) = 0 \<longrightarrow> hitRate (lru_getStats c) = 0)
   \<and> stats (lru_clear c) = stats c"
  unfolding Let_def by (rule getStats_facts)

theorem stats_invariant_witness:
  "totalRequests (lru_getStats (run_cache [] (LRUCache_new 100 60 :: nat LRUCache))) = 0
   \<and> hitRate (lru_getStats (run_cache [] (LRUCache_new 100 60 :: nat LRUCache))) = 0"
proof -
  have t: "totalRequests (lru_getStats (run_cache [] (LRUCache_new 100 60 :: nat LRUCache))) = 0"
    by (simp add: run_cache_def LRUCache_new_def lru_getStats_def)
  from stats_invariant[of "[] :: nat cache_op list" 100 60, unfolded Let_def] t
  show ?thesis by blast
qed

section \<open>Cache: existence probe\<close>

lemma map_delete_absent: "map_get m k = None \<Longrightarrow> map_delete k m = m"
  unfolding map_get_def map_delete_def
  by (induction m) (auto split: if_splits)

text \<open>
  C8. For every key and every cache state, \<open>has\<close> applies the expiry test of \<open>get\<close>:
  it reports the key exactly when \<open>get\<close> would return a value, and when it reports
  false the store it leaves is the one \<open>get\<close> leaves (an expired entry is deleted). It
  leaves the hit, miss and eviction counters as they are, and the entries that remain are
  unchanged (their \<open>lastAccessed\<close> included) and in the same order.
\<close>
theorem has_frame:
  "stats (snd (lru_has k t c)) = stats c
   \<and> (fst (lru_has k t c) \<longleftrightarrow> fst (lru_get k t c) \<noteq> None)
   \<and> cache (snd (lru_has k t c))
        = (if fst (lru_has k t c) then cache c else filter (\<lambda>p. fst p \<noteq> k) (cache c))
   \<and> (\<not> fst (lru_has k t c) \<longrightarrow> cache (snd (lru_has k t c)) = cache (snd (lru_get k t c)))"
proof (cases "map_get (cache c) k")
  case None
  then show ?thesis
    using map_delete_absent[OF None] by (simp add: lru_has_def lru_get_def map_delete_def)
next
  case (Some e)
  then show ?thesis
    by (simp add: lru_has_def lru_get_def map_delete_def)
qed

theorem has_frame_witness:
  "cache (snd (lru_has ''a'' 70000 (lru_set ''b'' (2::nat) 5 (lru_set ''a'' 1 0 (LRUCache_new 10 60)))))
     = cache (snd (lru_get ''a'' 70000 (lru_set ''b'' (2::nat) 5 (lru_set ''a'' 1 0 (LRUCache_new 10 60)))))"
proof -
  have "\<not> fst (lru_has ''a'' 70000 (lru_set ''b'' (2::nat) 5 (lru_set ''a'' 1 0 (LRUCache_new 10 60))))"
    by (simp add: lru_has_def lru_set_def LRUCache_new_def isExpired_def
        map_get_def map_has_def map_set_def map_size_def Let_def)
  then show ?thesis
    using has_frame[of "''a''" 70000 "lru_set ''b'' (2::nat) 5 (lru_set ''a'' 1 0 (LRUCache_new 10 60))"]
    by blast
qed

section \<open>Cache: capacity and eviction\<close>

lemma cache_wf_keys: "cache_wf c \<longleftrightarrow> keys_wf (map fst (cache c)) (capacity c)"
  by (simp add: cache_wf_def keys_wf_def map_size_def)

lemma keys_map_delete: "map fst (map_delete k m) = removeAll k (map fst m)"
  unfolding map_delete_def by (induction m) auto

lemma map_set_absent: "\<not> map_has m k \<Longrightarrow> map_set k v m = m @ [(k, v)]"
  by (simp add: map_set_def)

lemma not_has_delete: "\<not> map_has (map_delete k m) k"
  by (simp add: map_has_def keys_map_delete)

lemma has_after_delete_other: "map_has (map_delete k' m) k \<longleftrightarrow> map_has m k \<and> k \<noteq> k'"
  by (auto simp: map_has_def keys_map_delete)

lemma map_has_iff_get: "map_has m k \<longleftrightarrow> map_get m k \<noteq> None"
  unfolding map_has_def map_get_def by (simp add: map_of_eq_None_iff)

lemma keys_wf_removeAll: "keys_wf ks cap \<Longrightarrow> keys_wf (removeAll k ks) cap"
proof -
  assume a: "keys_wf ks cap"
  have "length (removeAll k ks) \<le> length ks" by (rule length_removeAll_less_eq)
  then have "int (length (removeAll k ks)) \<le> cap" using a unfolding keys_wf_def by linarith
  then show ?thesis using a unfolding keys_wf_def by (simp add: distinct_removeAll)
qed

lemma keys_wf_touch:
  assumes "keys_wf ks cap" "k \<in> set ks"
  shows "keys_wf (removeAll k ks @ [k]) cap"
proof -
  have d: "distinct ks" and ne: "[] \<notin> set ks" and len: "int (length ks) \<le> cap" and c1: "1 \<le> cap"
    using assms(1) unfolding keys_wf_def by simp_all
  have "length (removeAll k ks) < length ks" using assms(2) by (rule length_removeAll_less)
  then have l: "int (length (removeAll k ks @ [k])) \<le> cap" using len by simp
  have k: "k \<noteq> []" using ne assms(2) by auto
  have "distinct (removeAll k ks @ [k])" using d by (simp add: distinct_removeAll)
  moreover have "[] \<notin> set (removeAll k ks @ [k])" using ne k by auto
  ultimately show ?thesis using l c1 unfolding keys_wf_def by blast
qed

lemma keys_wf_append:
  assumes "keys_wf ks cap" "k \<notin> set ks" "k \<noteq> []" "int (length ks) < cap"
  shows "keys_wf (ks @ [k]) cap"
  using assms unfolding keys_wf_def by auto

lemma keys_wf_evict:
  assumes "keys_wf (fk # ks) cap" "k \<notin> set ks" "k \<noteq> []"
  shows "keys_wf (ks @ [k]) cap"
  using assms unfolding keys_wf_def by auto

lemma keys_wf_filter: "keys_wf ks cap \<Longrightarrow> keys_wf (filter P ks) cap"
proof -
  assume a: "keys_wf ks cap"
  have "length (filter P ks) \<le> length ks" by (rule length_filter_le)
  then have "int (length (filter P ks)) \<le> cap" using a unfolding keys_wf_def by linarith
  then show ?thesis using a unfolding keys_wf_def by simp
qed

lemma lru_get_wf: "cache_wf c \<Longrightarrow> cache_wf (snd (lru_get k t c))"
proof -
  assume wf: "cache_wf c"
  then have kw: "keys_wf (map fst (cache c)) (capacity c)" by (simp add: cache_wf_keys)
  show ?thesis
  proof (cases "map_get (cache c) k")
    case None
    then have "snd (lru_get k t c) = c\<lparr>stats := (stats c)\<lparr>misses := misses (stats c) + 1\<rparr>\<rparr>"
      by (simp add: lru_get_def)
    then show ?thesis using kw by (simp add: cache_wf_keys)
  next
    case (Some e)
    then have has: "k \<in> set (map fst (cache c))"
      using map_has_iff_get[of "cache c" k] by (simp add: map_has_def)
    show ?thesis
    proof (cases "isExpired c t e")
      case True
      then have "map fst (cache (snd (lru_get k t c))) = removeAll k (map fst (cache c))"
        and "capacity (snd (lru_get k t c)) = capacity c"
        using Some by (simp_all add: lru_get_def keys_map_delete)
      then show ?thesis using keys_wf_removeAll[OF kw] by (simp add: cache_wf_keys)
    next
      case False
      then have "map fst (cache (snd (lru_get k t c))) = removeAll k (map fst (cache c)) @ [k]"
        and "capacity (snd (lru_get k t c)) = capacity c"
        using Some
        by (simp_all add: lru_get_def keys_map_delete map_set_absent[OF not_has_delete])
      then show ?thesis using keys_wf_touch[OF kw has] by (simp add: cache_wf_keys)
    qed
  qed
qed

lemma keys_map_set_absent: "\<not> map_has m k \<Longrightarrow> map fst (map_set k v m) = map fst m @ [k]"
  by (simp add: map_set_def)

lemma lru_set_keys:
  "map fst (cache (lru_set k v t c)) =
     (if map_has (cache c) k then removeAll k (map fst (cache c)) @ [k]
      else if map_size (cache c) \<ge> capacity c then
        (case map fst (cache c) of
           [] \<Rightarrow> [k]
         | fk # ks \<Rightarrow> if fk \<noteq> [] then removeAll fk (fk # ks) @ [k] else (fk # ks) @ [k])
      else map fst (cache c) @ [k])"
proof (cases "map_has (cache c) k")
  case True
  then show ?thesis
    by (simp add: lru_set_def Let_def keys_map_delete keys_map_set_absent[OF not_has_delete])
next
  case False
  note absent = False
  show ?thesis
  proof (cases "map_size (cache c) \<ge> capacity c")
    case False
    then show ?thesis using absent by (simp add: lru_set_def Let_def keys_map_set_absent)
  next
    case True
    note full = True
    show ?thesis
    proof (cases "cache c")
      case Nil
      then show ?thesis using absent full by (simp add: lru_set_def Let_def keys_map_set_absent)
    next
      case (Cons a rest)
      obtain fk fe where a: "a = (fk, fe)" by (cases a)
      show ?thesis
      proof (cases "fk = []")
        case True
        have "cache (lru_set k v t c)
                = map_set k \<lparr>entry_value = v, timestamp = t, lastAccessed = t\<rparr> (cache c)"
          using absent full Cons a True by (simp add: lru_set_def Let_def)
        then have "map fst (cache (lru_set k v t c)) = map fst (cache c) @ [k]"
          using absent by (simp add: keys_map_set_absent)
        then show ?thesis using absent full Cons a True by simp
      next
        case False
        have nh: "\<not> map_has (map_delete fk (cache c)) k"
          using absent by (simp add: has_after_delete_other)
        have "cache (lru_set k v t c)
                = map_set k \<lparr>entry_value = v, timestamp = t, lastAccessed = t\<rparr>
                    (map_delete fk (cache c))"
          using absent full Cons a False by (simp add: lru_set_def Let_def)
        then have "map fst (cache (lru_set k v t c)) = removeAll fk (map fst (cache c)) @ [k]"
          using nh by (simp add: keys_map_set_absent keys_map_delete)
        then show ?thesis using absent full Cons a False by simp
      qed
    qed
  qed
qed

lemma lru_set_capacity: "capacity (lru_set k v t c) = capacity c"
  by (simp add: lru_set_def Let_def split: list.splits)

lemma lru_set_wf:
  assumes wf: "cache_wf c" and k: "k \<noteq> []"
  shows "cache_wf (lru_set k v t c)"
proof -
  have kw: "keys_wf (map fst (cache c)) (capacity c)" using wf by (simp add: cache_wf_keys)
  have "keys_wf (map fst (cache (lru_set k v t c))) (capacity c)"
  proof (cases "map_has (cache c) k")
    case True
    then have "k \<in> set (map fst (cache c))" by (simp add: map_has_def)
    then show ?thesis using True keys_wf_touch[OF kw] by (simp add: lru_set_keys)
  next
    case False
    then have nk: "k \<notin> set (map fst (cache c))" by (simp add: map_has_def)
    show ?thesis
    proof (cases "map_size (cache c) \<ge> capacity c")
      case False
      then have "int (length (map fst (cache c))) < capacity c" by (simp add: map_size_def)
      then show ?thesis using \<open>\<not> map_has (cache c) k\<close> False keys_wf_append[OF kw nk k]
        by (simp add: lru_set_keys)
    next
      case True
      have "map fst (cache c) \<noteq> []" using True kw unfolding keys_wf_def map_size_def by auto
      then obtain fk ks where ks: "map fst (cache c) = fk # ks" by (cases "map fst (cache c)") auto
      have fk: "fk \<noteq> []" and "fk \<notin> set ks" using kw ks unfolding keys_wf_def by auto
      then have r: "removeAll fk (fk # ks) = ks" by simp
      have "k \<notin> set ks" using nk ks by simp
      then have "keys_wf (ks @ [k]) (capacity c)" using keys_wf_evict kw k ks by metis
      then show ?thesis using \<open>\<not> map_has (cache c) k\<close> True ks fk r
        by (simp add: lru_set_keys)
    qed
  qed
  then show ?thesis by (simp add: cache_wf_keys lru_set_capacity)
qed

lemma lru_has_wf: "cache_wf c \<Longrightarrow> cache_wf (snd (lru_has k t c))"
proof -
  assume wf: "cache_wf c"
  then have kw: "keys_wf (map fst (cache c)) (capacity c)" by (simp add: cache_wf_keys)
  have "snd (lru_has k t c) = c \<or> snd (lru_has k t c) = c\<lparr>cache := map_delete k (cache c)\<rparr>"
    by (simp add: lru_has_def split: option.splits)
  then show ?thesis using wf keys_wf_removeAll[OF kw, of k]
    by (auto simp: cache_wf_keys keys_map_delete)
qed

lemma cleanup_wf: "cache_wf c \<Longrightarrow> cache_wf (cleanupStaleEntries t c)"
proof -
  assume wf: "cache_wf c"
  then have kw: "keys_wf (map fst (cache c)) (capacity c)" by (simp add: cache_wf_keys)
  have "map fst (filter (\<lambda>p. fst p \<notin> set (keysToDelete t c)) (cache c))
          = filter (\<lambda>k. k \<notin> set (keysToDelete t c)) (map fst (cache c))"
    by (simp add: filter_map comp_def)
  then show ?thesis using keys_wf_filter[OF kw]
    by (simp add: cleanupStaleEntries_def fold_map_delete cache_wf_keys)
qed

lemma apply_cache_op_wf:
  "cache_wf c \<Longrightarrow> set_keys_nonempty op \<Longrightarrow> cache_wf (apply_cache_op op c)"
proof (cases op)
  case (Get k t) then show "cache_wf c \<Longrightarrow> ?thesis" by (simp add: lru_get_wf)
next
  case (Set k v t) then show "cache_wf c \<Longrightarrow> set_keys_nonempty op \<Longrightarrow> ?thesis" by (simp add: lru_set_wf)
next
  case (Has k t) then show "cache_wf c \<Longrightarrow> ?thesis" by (simp add: lru_has_wf)
next
  case Clear then show "cache_wf c \<Longrightarrow> ?thesis" by (simp add: lru_clear_def cache_wf_def map_size_def)
next
  case (Sweep t) then show "cache_wf c \<Longrightarrow> ?thesis" by (simp add: cleanup_wf)
next
  case ResetStats then show "cache_wf c \<Longrightarrow> ?thesis" by (simp add: resetStats_def cache_wf_def)
qed

lemma run_cache_wf:
  "cache_wf c \<Longrightarrow> list_all set_keys_nonempty ops \<Longrightarrow> cache_wf (run_cache ops c)"
  unfolding run_cache_def
  by (induction ops arbitrary: c) (simp_all add: apply_cache_op_wf)

lemma new_cache_wf: "1 \<le> cap \<Longrightarrow> cache_wf (LRUCache_new cap ttlSeconds)"
  by (simp add: cache_wf_def LRUCache_new_def map_size_def)

lemma set_on_full_cache_evicts_lru:
  assumes wf: "cache_wf c" and k: "k \<noteq> []"
    and absent: "\<not> map_has (cache c) k" and full: "lru_size c = capacity c"
  shows "cache (lru_set k v t c)
           = tl (cache c) @ [(k, \<lparr>entry_value = v, timestamp = t, lastAccessed = t\<rparr>)]
       \<and> evictions (stats (lru_set k v t c)) = evictions (stats c) + 1
       \<and> lru_size (lru_set k v t c) = capacity (lru_set k v t c)"
proof -
  have "cache c \<noteq> []" using wf full unfolding cache_wf_def lru_size_def map_size_def by auto
  then obtain fk fe rest where c: "cache c = (fk, fe) # rest" by (cases "cache c") auto
  have fk: "fk \<noteq> []" using wf c unfolding cache_wf_def by auto
  have "fk \<notin> fst ` set rest" using wf c unfolding cache_wf_def by auto
  then have "filter (\<lambda>p. fst p \<noteq> fk) rest = rest" by (auto simp: filter_id_conv)
  then have del: "map_delete fk (cache c) = rest" using c by (simp add: map_delete_def)
  have nh: "\<not> map_has rest k" using absent c by (simp add: map_has_def)
  have ge: "map_size (cache c) \<ge> capacity c" using full by (simp add: lru_size_def)
  show ?thesis using absent ge c fk del nh full
    by (simp add: lru_set_def Let_def map_set_absent lru_size_def map_size_def)
qed

lemma size_within_capacity_when_keys_nonempty:
  assumes "1 \<le> cap" "list_all set_keys_nonempty ops"
  shows "lru_size (run_cache ops (LRUCache_new cap ttlSeconds))
           \<le> capacity (run_cache ops (LRUCache_new cap ttlSeconds))"
  using run_cache_wf[OF new_cache_wf[OF assms(1)] assms(2)]
  by (simp add: cache_wf_def lru_size_def)

text \<open>
  C4. The claim is that after any \<open>set\<close> the size is at most the capacity, and that a
  \<open>set\<close> of a new key into a full cache evicts the least recently used entry and counts
  an eviction. The eviction is guarded by \<open>if (firstKey)\<close>, which is false for the empty
  string: with capacity 1, after \<open>set('', 1)\<close> and \<open>set('a', 2)\<close> the cache holds two
  entries and has counted no eviction.
\<close>
theorem set_empty_key_overflows_capacity:
  "lru_size (lru_set ''a'' (2::nat) 1 (lru_set '''' 1 0 (LRUCache_new 1 60))) = 2
   \<and> capacity (lru_set ''a'' (2::nat) 1 (lru_set '''' 1 0 (LRUCache_new 1 60))) = 1
   \<and> evictions (stats (lru_set ''a'' (2::nat) 1 (lru_set '''' 1 0 (LRUCache_new 1 60)))) = 0
   \<and> lru_keys (lru_set ''a'' (2::nat) 1 (lru_set '''' 1 0 (LRUCache_new 1 60))) = ['''', ''a'']"
  by (simp add: lru_set_def LRUCache_new_def lru_size_def lru_keys_def
        map_get_def map_has_def map_set_def map_size_def map_delete_def Let_def)

section \<open>Rate limiter: the refill rate\<close>

lemma fl_1_6000: "fl (1 / 6000) = 6148914691236517 / 2 ^ 65"
proof -
  have "fl (1 / 6000) = of_int (round_even ((1 / 6000) / 2 powi (-13 - 52))) * 2 powi (-13 - 52)"
    by (rule fl_eq) simp_all
  also have "((1::rat) / 6000) / 2 powi (-13 - 52) = 36893488147419103232 / 6000" by simp
  also have "round_even (36893488147419103232 / 6000) = 6148914691236517"
    by code_simp
  finally show ?thesis by simp
qed

lemma refillRate_value: "refillRate = 6148914691236517 / 2 ^ 65"
proof -
  have "fl (of_int 60000) = of_int 60000" by (rule fl_int) simp
  then have "dmul 60 1000 = 60000" by (simp add: dmul_def)
  then show ?thesis using fl_1_6000 by (simp add: refillRate_def ddiv_def)
qed

lemma refillRate_pos: "0 < refillRate"
  by (simp add: refillRate_value)

lemma full_reset_time: "ddiv 10 refillRate = 60000"
  unfolding refillRate_value ddiv_def by code_simp

lemma token_after_6000: "dmul 6000 refillRate = 1"
  unfolding refillRate_value dmul_def by code_simp

section \<open>Rate limiter: admission\<close>

lemma fl_small: "0 \<le> k \<Longrightarrow> k \<le> 10 \<Longrightarrow> fl (of_int k) = of_int k"
  by (rule fl_int) simp

lemma refill_same_instant:
  assumes "0 \<le> k" "k \<le> 10" "0 \<le> b"
  shows "refillBurstTokens now (refillTokens now
           \<lparr>tokens = of_int k, lastRefill = now, burstTokens = b, lastBurstRefill = now\<rparr>)
         = \<lparr>tokens = of_int k, lastRefill = now, burstTokens = b, lastBurstRefill = now\<rparr>"
proof -
  have "dadd (of_int k) (dmul (of_int 0) refillRate) = of_int k"
    using fl_small[OF assms(1,2)] by (simp add: dadd_def dmul_def)
  moreover have "min maxTokens (of_int k :: rat) = of_int k"
    using assms(2) by (simp add: maxTokens_def min_def)
  ultimately show ?thesis
    by (simp add: refillTokens_def refillBurstTokens_def burstWindow_def Let_def)
qed

lemma dsub_one: "1 \<le> k \<Longrightarrow> k \<le> 10 \<Longrightarrow> dsub (of_int k) 1 = of_int (k - 1)"
  using fl_small[of "k - 1"] by (simp add: dsub_def)

lemma bucket_after_0:
  "bucket_after 0 now
     = \<lparr>tokens = maxTokens, lastRefill = now, burstTokens = burstCapacity, lastBurstRefill = now\<rparr>"
  by (simp add: bucket_after_def maxTokens_def burstCapacity_def)

lemma allow_known:
  assumes "buckets rl c = Some (bucket_after i now)"
  shows "allowRequest c now rl
           = (i < 10, rl\<lparr>buckets := (buckets rl)(c \<mapsto> bucket_after (Suc i) now)\<rparr>)"
proof -
  let ?k = "max 0 (10 - int i)" and ?b = "max 0 (5 - int i)"
  have g: "getBucket c now rl = (bucket_after i now, rl)" using assms by (simp add: getBucket_def)
  have r: "refillBurstTokens now (refillTokens now (bucket_after i now)) = bucket_after i now"
    unfolding bucket_after_def by (rule refill_same_instant) simp_all
  consider (burst) "i < 5" | (steady) "5 \<le> i" "i < 10" | (empty) "10 \<le> i" by linarith
  then show ?thesis
  proof cases
    case burst
    have "dsub (of_int ?k) 1 = of_int (?k - 1)" using burst by (intro dsub_one) simp_all
    then show ?thesis using burst
      by (simp add: allowRequest_def g r Let_def) (simp add: bucket_after_def max_def)
  next
    case steady
    have "dsub (of_int ?k) 1 = of_int (?k - 1)" using steady by (intro dsub_one) simp_all
    then show ?thesis using steady
      by (simp add: allowRequest_def g r Let_def) (simp add: bucket_after_def max_def)
  next
    case empty
    then show ?thesis
      by (simp add: allowRequest_def g r Let_def) (simp add: bucket_after_def max_def)
  qed
qed

lemma allow_fresh:
  assumes "buckets rl c = None"
  shows "allowRequest c now rl
           = (True, rl\<lparr>buckets := (buckets rl)(c \<mapsto> bucket_after 1 now)\<rparr>)"
proof -
  let ?rl0 = "rl\<lparr>buckets := (buckets rl)(c \<mapsto> bucket_after 0 now)\<rparr>"
  have "allowRequest c now rl = allowRequest c now ?rl0"
    using assms by (simp add: allowRequest_def getBucket_def bucket_after_0 Let_def)
  also have "\<dots> = (0 < (10::nat), ?rl0\<lparr>buckets := (buckets ?rl0)(c \<mapsto> bucket_after (Suc 0) now)\<rparr>)"
    by (rule allow_known) simp
  finally show ?thesis by simp
qed

lemma requests_known:
  assumes "buckets rl c = Some (bucket_after j now)"
  shows "fst (requests c (replicate m now) rl) = map (\<lambda>k. k < 10) [j..<j + m]
       \<and> buckets (snd (requests c (replicate m now) rl)) c = Some (bucket_after (j + m) now)"
  using assms
proof (induction m arbitrary: rl j)
  case 0
  then show ?case by simp
next
  case (Suc m)
  let ?rl1 = "rl\<lparr>buckets := (buckets rl)(c \<mapsto> bucket_after (Suc j) now)\<rparr>"
  have a: "allowRequest c now rl = (j < 10, ?rl1)" by (rule allow_known[OF Suc.prems])
  have b: "buckets ?rl1 c = Some (bucket_after (Suc j) now)" by simp
  have u: "[j..<j + Suc m] = j # [Suc j..<Suc j + m]" by (simp add: upt_conv_Cons)
  show ?case unfolding u using Suc.IH[OF b] a by (simp add: split_def Let_def)
qed

lemma requests_fresh:
  assumes "buckets rl c = None"
  shows "fst (requests c (replicate (Suc m) now) rl) = map (\<lambda>k. k < 10) [0..<Suc m]
       \<and> buckets (snd (requests c (replicate (Suc m) now) rl)) c = Some (bucket_after (Suc m) now)"
proof -
  let ?rl1 = "rl\<lparr>buckets := (buckets rl)(c \<mapsto> bucket_after 1 now)\<rparr>"
  have a: "allowRequest c now rl = (True, ?rl1)" by (rule allow_fresh[OF assms])
  have b: "buckets ?rl1 c = Some (bucket_after 1 now)" by simp
  have u: "[0..<Suc m] = 0 # [1..<1 + m]" by (simp add: upt_conv_Cons)
  show ?thesis unfolding u using requests_known[OF b, of m] a by (simp add: split_def Let_def)
qed

lemma map_all_const: "\<forall>x \<in> set xs. f x = c \<Longrightarrow> map f xs = replicate (length xs) c"
  by (induction xs) simp_all

lemma verdicts: "map (\<lambda>k. k < (10::nat)) [0..<10 + n] = replicate 10 True @ replicate n False"
proof -
  have a: "map (\<lambda>k. k < (10::nat)) [0..<10] = replicate 10 True"
    by (simp add: upt_conv_Cons eval_nat_numeral)
  have "\<forall>k \<in> set [10..<10 + n]. (k < (10::nat)) = False" by simp
  then have "map (\<lambda>k. k < (10::nat)) [10..<10 + n] = replicate (length [10..<10 + n]) False"
    by (rule map_all_const)
  then have b: "map (\<lambda>k. k < (10::nat)) [10..<10 + n] = replicate n False" by simp
  have e: "[0..<10 + n] = [0..<10] @ [10..<10 + n]" by (rule upt_add_eq_append) simp
  show ?thesis unfolding e map_append a b ..
qed

lemma instant_requests:
  assumes "buckets rl clientId = None"
  shows "fst (requests clientId (replicate (10 + n) now) rl) = replicate 10 True @ replicate n False
       \<and> (\<forall>i. 0 < i \<longrightarrow> buckets (snd (requests clientId (replicate i now) rl)) clientId
             = Some \<lparr>tokens = of_int (max 0 (10 - int i)), lastRefill = now,
                     burstTokens = max 0 (5 - int i), lastBurstRefill = now\<rparr>)"
proof
  have "10 + n = Suc (9 + n)" by simp
  then show "fst (requests clientId (replicate (10 + n) now) rl) = replicate 10 True @ replicate n False"
    using requests_fresh[OF assms, of "9 + n" now] verdicts[of n] by simp
next
  show "\<forall>i. 0 < i \<longrightarrow> buckets (snd (requests clientId (replicate i now) rl)) clientId
             = Some \<lparr>tokens = of_int (max 0 (10 - int i)), lastRefill = now,
                     burstTokens = max 0 (5 - int i), lastBurstRefill = now\<rparr>"
  proof (intro allI impI)
    fix i :: nat assume "0 < i"
    then obtain m where i: "i = Suc m" by (cases i) auto
    show "buckets (snd (requests clientId (replicate i now) rl)) clientId
             = Some \<lparr>tokens = of_int (max 0 (10 - int i)), lastRefill = now,
                     burstTokens = max 0 (5 - int i), lastBurstRefill = now\<rparr>"
      unfolding i using requests_fresh[OF assms, of m now] by (simp add: bucket_after_def)
  qed
qed

lemma new_limiter_no_bucket: "buckets RateLimiter_new clientId = None"
  by (simp add: RateLimiter_new_def)

text \<open>
  C2 (as amended). From a freshly created bucket (10 steady tokens, 5 burst tokens), with
  every request of the client arriving at the same clock reading, exactly
  \<open>maxTokens = 10\<close> consecutive \<open>allowRequest\<close> calls return true and every further call
  returns false. After \<open>i \<ge> 1\<close> of these requests the bucket holds \<open>max 0 (10 - i)\<close>
  steady tokens and \<open>max 0 (5 - i)\<close> burst tokens: each of the first 5 requests debits
  both pools, each of the next 5 the steady pool only, and a rejected request debits
  nothing.
\<close>

theorem fresh_bucket_admits_maxTokens:
  assumes "buckets rl clientId = None"
  shows "fst (requests clientId (replicate (10 + n) now) rl) = replicate 10 True @ replicate n False
       \<and> (\<forall>i. 0 < i \<longrightarrow> buckets (snd (requests clientId (replicate i now) rl)) clientId
             = Some \<lparr>tokens = of_int (max 0 (10 - int i)), lastRefill = now,
                     burstTokens = max 0 (5 - int i), lastBurstRefill = now\<rparr>)"
  using assms by (rule instant_requests)

theorem fresh_bucket_admits_maxTokens_witness:
  "fst (requests ''10.0.0.1'' (replicate (10 + 2) 1700000000000) RateLimiter_new)
     = replicate 10 True @ replicate 2 False
   \<and> buckets (snd (requests ''10.0.0.1'' (replicate 5 1700000000000) RateLimiter_new)) ''10.0.0.1''
     = Some \<lparr>tokens = 5, lastRefill = 1700000000000, burstTokens = 0,
             lastBurstRefill = 1700000000000\<rparr>"
proof -
  note t = fresh_bucket_admits_maxTokens[OF new_limiter_no_bucket, of "''10.0.0.1''" 2 1700000000000]
  have a: "fst (requests ''10.0.0.1'' (replicate (10 + 2) 1700000000000) RateLimiter_new)
     = replicate 10 True @ replicate 2 False"
    using t by blast
  have "0 < (5::nat) \<longrightarrow>
      buckets (snd (requests ''10.0.0.1'' (replicate 5 1700000000000) RateLimiter_new)) ''10.0.0.1''
        = Some \<lparr>tokens = of_int (max 0 (10 - int 5)), lastRefill = 1700000000000,
                burstTokens = max 0 (5 - int 5), lastBurstRefill = 1700000000000\<rparr>"
    using t by blast
  then have b: "buckets (snd (requests ''10.0.0.1'' (replicate 5 1700000000000) RateLimiter_new)) ''10.0.0.1''
     = Some \<lparr>tokens = 5, lastRefill = 1700000000000, burstTokens = 0,
             lastBurstRefill = 1700000000000\<rparr>"
    by simp
  show ?thesis using a b by (rule conjI)
qed

text \<open>
  C2 as stated fails: of 15 requests at the same instant to a new limiter, the first 10
  are admitted and the last 5 are rejected.
\<close>

theorem fifteen_instant_requests_not_all_admitted:
  "fst (requests ''10.0.0.1'' (replicate 15 0) RateLimiter_new)
     = replicate 10 True @ replicate 5 False"
proof -
  have e: "(15::nat) = 10 + 5" by simp
  show ?thesis unfolding e using instant_requests[OF new_limiter_no_bucket] by blast
qed

section \<open>Rate limiter: status\<close>

lemma getStatus_state:
  "buckets (snd (getStatus req now rl)) =
     (buckets rl)(getClientId req \<mapsto> refilled (getClientId req) now rl)"
  by (auto simp: getStatus_def getBucket_def refilled_def Let_def split: option.splits)

lemma getStatus_report:
  "fst (getStatus req now rl) =
     \<lparr>remaining = \<lfloor>tokens (refilled (getClientId req) now rl)\<rfloor>,
      burstRemaining = burstTokens (refilled (getClientId req) now rl),
      resetIn = \<lceil>ddiv (dsub maxTokens (tokens (refilled (getClientId req) now rl))) refillRate\<rceil>\<rparr>"
  by (auto simp: getStatus_def getBucket_def refilled_def Let_def split: option.splits)

lemma allowRequest_via_refilled:
  "fst (allowRequest c now rl) \<longleftrightarrow>
     burstTokens (refilled c now rl) > 0 \<or> tokens (refilled c now rl) \<ge> 1"
  by (auto simp: allowRequest_def refilled_def Let_def split_def)

lemma refilled_tokens_le: "tokens (refilled c now rl) \<le> 10"
  by (simp add: refilled_def refillTokens_def refillBurstTokens_def maxTokens_def Let_def)

lemma reset_estimate:
  assumes "0 \<le> T" "T \<le> 10"
  shows "\<bar>ddiv (dsub maxTokens T) refillRate - (maxTokens - T) * 6000\<bar> < 1 / 1000"
proof -
  let ?R = "(36893488147419103232::rat) / 6148914691236517"
  define d where "d = fl (10 - T)"
  define c where "c = fl (d * ?R)"
  define w where "w = 10 - T"
  have w: "0 \<le> w" "w \<le> 10" using assms by (simp_all add: w_def)
  have p: "(2::rat) ^ 53 = 9007199254740992" by simp
  have "\<bar>d - w\<bar> \<le> \<bar>w\<bar> / 2 ^ 53" unfolding d_def w_def by (rule fl_error)
  then have "\<bar>d - w\<bar> \<le> w / 9007199254740992" using w unfolding p by simp
  then have "d - w \<le> w / 9007199254740992" "- (d - w) \<le> w / 9007199254740992"
    by (simp_all only: abs_le_iff)
  then have e1: "9007199254740992 * d - 9007199254740992 * w \<le> w"
    "9007199254740992 * w - 9007199254740992 * d \<le> w"
    by (simp_all add: field_simps)
  have d0: "0 \<le> d" using e1 w by linarith
  have "\<bar>c - d * ?R\<bar> \<le> \<bar>d * ?R\<bar> / 2 ^ 53" unfolding c_def by (rule fl_error)
  moreover have "\<bar>d * ?R\<bar> = d * ?R" using d0 by simp
  ultimately have "\<bar>c - d * ?R\<bar> \<le> (d * ?R) / 9007199254740992" unfolding p by simp
  then have "c - d * ?R \<le> (d * ?R) / 9007199254740992"
    "- (c - d * ?R) \<le> (d * ?R) / 9007199254740992"
    by (simp_all only: abs_le_iff)
  then have e2: "6148914691236517 * c - 36893488147419103232 * d
                   \<le> (36893488147419103232 / 9007199254740992) * d"
    "36893488147419103232 * d - 6148914691236517 * c
                   \<le> (36893488147419103232 / 9007199254740992) * d"
    by (simp_all add: field_simps)
  have eq: "ddiv (dsub 10 T) refillRate = c"
    by (simp add: ddiv_def dsub_def refillRate_value c_def d_def)
  have "1000 * c - 6000000 * w < 1" "6000000 * w - 1000 * c < 1"
    using e1 e2 w by linarith+
  then have "c - w * 6000 < 1 / 1000" "- (c - w * 6000) < 1 / 1000" by (simp_all add: field_simps)
  then have "\<bar>c - w * 6000\<bar> < 1 / 1000" by (simp only: abs_less_iff)
  then show ?thesis unfolding maxTokens_def eq w_def .
qed

lemma ceiling_close:
  fixes c q :: rat
  assumes "\<bar>c - q\<bar> < 1"
  shows "\<bar>\<lceil>c\<rceil> - \<lceil>q\<rceil>\<bar> \<le> 1"
proof -
  have "c \<le> q + 1" "q \<le> c + 1" using assms by (simp_all add: abs_less_iff)
  then have "\<lceil>c\<rceil> \<le> \<lceil>q + 1\<rceil>" "\<lceil>q\<rceil> \<le> \<lceil>c + 1\<rceil>" by (simp_all only: ceiling_mono)
  then show ?thesis by simp
qed

text \<open>
  C9 (as amended). \<open>getStatus\<close> performs the steady and burst refill steps of
  \<open>allowRequest\<close> on the client's bucket and stores the result; it reports
  \<open>remaining\<close> = the floor of the steady tokens, \<open>burstRemaining\<close> = the burst tokens,
  and \<open>resetIn\<close> = the ceiling of \<open>(maxTokens - tokens) / refillRate\<close> in double
  arithmetic. For a pool that is not negative this is, to within one millisecond, the
  time until the steady pool is full again at one token per 6000 milliseconds.
  \<open>allowRequest\<close> at the same instant admits exactly when the reported
  \<open>burstRemaining\<close> is positive or the reported \<open>remaining\<close> is at least 1.
\<close>

theorem status_reports_refilled_bucket:
  "\<exists>b. buckets (snd (getStatus req now rl)) (getClientId req) = Some b
     \<and> b = refillBurstTokens now (refillTokens now (fst (getBucket (getClientId req) now rl)))
     \<and> remaining (fst (getStatus req now rl)) = \<lfloor>tokens b\<rfloor>
     \<and> burstRemaining (fst (getStatus req now rl)) = burstTokens b
     \<and> resetIn (fst (getStatus req now rl)) = \<lceil>ddiv (dsub maxTokens (tokens b)) refillRate\<rceil>
     \<and> (0 \<le> tokens b \<longrightarrow>
           \<bar>resetIn (fst (getStatus req now rl)) - \<lceil>(maxTokens - tokens b) * 6000\<rceil>\<bar> \<le> 1)
     \<and> (fst (allowRequest (getClientId req) now rl)
            \<longleftrightarrow> burstRemaining (fst (getStatus req now rl)) > 0
                \<or> remaining (fst (getStatus req now rl)) \<ge> 1)"
proof -
  let ?b = "refilled (getClientId req) now rl"
  have est: "0 \<le> tokens ?b \<longrightarrow>
      \<bar>\<lceil>ddiv (dsub maxTokens (tokens ?b)) refillRate\<rceil> - \<lceil>(maxTokens - tokens ?b) * 6000\<rceil>\<bar> \<le> 1"
  proof
    assume "0 \<le> tokens ?b"
    then have "\<bar>ddiv (dsub maxTokens (tokens ?b)) refillRate - (maxTokens - tokens ?b) * 6000\<bar> < 1 / 1000"
      using refilled_tokens_le by (intro reset_estimate)
    then have "\<bar>ddiv (dsub maxTokens (tokens ?b)) refillRate - (maxTokens - tokens ?b) * 6000\<bar> < 1"
      by linarith
    then show "\<bar>\<lceil>ddiv (dsub maxTokens (tokens ?b)) refillRate\<rceil> - \<lceil>(maxTokens - tokens ?b) * 6000\<rceil>\<bar> \<le> 1"
      by (rule ceiling_close)
  qed
  have fl': "(1 \<le> \<lfloor>tokens ?b\<rfloor>) = (1 \<le> tokens ?b)" by (simp add: le_floor_iff)
  show ?thesis
    apply (rule exI[of _ ?b])
    apply (simp only: getStatus_state getStatus_report allowRequest_via_refilled)
    using est fl' by (simp add: refilled_def)
qed

theorem status_reports_refilled_bucket_witness:
  "\<bar>resetIn (fst (getStatus
      \<lparr>x_forwarded_for = None, x_real_ip = None, remoteAddress = Some ''10.0.0.1''\<rparr>
      5 RateLimiter_new)) - 0\<bar> \<le> 1"
proof -
  let ?req = "\<lparr>x_forwarded_for = None, x_real_ip = None, remoteAddress = Some ''10.0.0.1''\<rparr>"
  obtain b where b: "b = refillBurstTokens 5 (refillTokens 5 (fst (getBucket (getClientId ?req) 5 RateLimiter_new)))"
    and est: "0 \<le> tokens b \<longrightarrow>
           \<bar>resetIn (fst (getStatus ?req 5 RateLimiter_new)) - \<lceil>(maxTokens - tokens b) * 6000\<rceil>\<bar> \<le> 1"
    using status_reports_refilled_bucket[of ?req 5 RateLimiter_new] by blast
  have r: "refillBurstTokens 5 (refillTokens 5 (bucket_after 0 5)) = bucket_after 0 5"
    unfolding bucket_after_def by (rule refill_same_instant) simp_all
  have g: "fst (getBucket (getClientId ?req) 5 RateLimiter_new) = bucket_after 0 5"
    by (simp add: getBucket_def RateLimiter_new_def bucket_after_0 Let_def)
  have "tokens b = maxTokens" unfolding b g r by (simp add: bucket_after_0)
  then show ?thesis using est by (simp add: maxTokens_def)
qed

text \<open>
  C9 as stated fails: for the bucket left by 10 instant requests at time 0, \<open>getStatus\<close>
  at time 0 reports \<open>remaining = 0\<close> and \<open>resetIn = 60000\<close>, yet one more steady token
  is available after 6000 milliseconds: \<open>getStatus\<close> at 6000 reports \<open>remaining = 1\<close>
  and \<open>allowRequest\<close> at 6000 admits.
\<close>

theorem resetIn_is_time_to_full_not_to_next_token:
  "resetIn (fst (getStatus
      \<lparr>x_forwarded_for = None, x_real_ip = None, remoteAddress = Some ''10.0.0.1''\<rparr> 0
      \<lparr>buckets = [''10.0.0.1'' \<mapsto> \<lparr>tokens = 0, lastRefill = 0, burstTokens = 0, lastBurstRefill = 0\<rparr>]\<rparr>))
     = 60000
   \<and> remaining (fst (getStatus
      \<lparr>x_forwarded_for = None, x_real_ip = None, remoteAddress = Some ''10.0.0.1''\<rparr> 0
      \<lparr>buckets = [''10.0.0.1'' \<mapsto> \<lparr>tokens = 0, lastRefill = 0, burstTokens = 0, lastBurstRefill = 0\<rparr>]\<rparr>))
     = 0
   \<and> remaining (fst (getStatus
      \<lparr>x_forwarded_for = None, x_real_ip = None, remoteAddress = Some ''10.0.0.1''\<rparr> 6000
      \<lparr>buckets = [''10.0.0.1'' \<mapsto> \<lparr>tokens = 0, lastRefill = 0, burstTokens = 0, lastBurstRefill = 0\<rparr>]\<rparr>))
     = 1
   \<and> fst (allowRequest ''10.0.0.1'' 6000
      \<lparr>buckets = [''10.0.0.1'' \<mapsto> \<lparr>tokens = 0, lastRefill = 0, burstTokens = 0, lastBurstRefill = 0\<rparr>]\<rparr>)
     = True
   \<and> buckets (snd (requests ''10.0.0.1'' (replicate 10 0) RateLimiter_new)) ''10.0.0.1''
     = Some \<lparr>tokens = 0, lastRefill = 0, burstTokens = 0, lastBurstRefill = 0\<rparr>"
proof -
  have a: "buckets (snd (requests ''10.0.0.1'' (replicate 10 0) RateLimiter_new)) ''10.0.0.1''
     = Some \<lparr>tokens = 0, lastRefill = 0, burstTokens = 0, lastBurstRefill = 0\<rparr>"
    using requests_fresh[OF new_limiter_no_bucket, of "''10.0.0.1''" 9 0]
    by (simp add: bucket_after_def)
  have f0: "dadd 0 0 = 0" "dsub 10 0 = 10" "dadd 0 1 = 1"
    using fl_small[of 10] fl_small[of 1] by (simp_all add: dadd_def dsub_def)
  show ?thesis
    using a
    by (simp add: getStatus_def getClientId_def or_else_def getBucket_def allowRequest_def
        refillTokens_def refillBurstTokens_def maxTokens_def burstWindow_def
        burstCapacity_def Let_def dmul_def f0 full_reset_time
        token_after_6000[unfolded dmul_def])
qed

section \<open>Queue: the invariant\<close>

lemma keys_map_set: "map fst (map_set k v m) = (if map_has m k then map fst m else map fst m @ [k])"
  unfolding map_set_def map_has_def by (induction m) (auto split: if_splits)

lemma map_get_in: "map_get m k = Some v \<Longrightarrow> (k, v) \<in> set m"
  unfolding map_get_def by (rule map_of_SomeD)

lemma values_map_set: "set (map snd (map_set k v m)) \<subseteq> insert v (set (map snd m))"
  unfolding map_set_def by auto

lemma values_map_delete: "set (map snd (map_delete k m)) \<subseteq> set (map snd m)"
  unfolding map_delete_def by auto

lemma tasks_map_set:
  assumes "distinct (map fst m)"
  shows "mset (concat (map snd (map_set k ((case map_get m k of None \<Rightarrow> [] | Some ws \<Rightarrow> ws) @ [t]) m)))
           = add_mset t (mset (concat (map snd m)))"
  using assms
proof (induction m)
  case Nil
  then show ?case by (simp add: map_set_def map_has_def map_get_def)
next
  case (Cons a m)
  obtain k' ws' where a: "a = (k', ws')" by (cases a)
  show ?case
  proof (cases "k' = k")
    case True
    then have "k \<notin> fst ` set m" using Cons.prems a by auto
    then have "map (\<lambda>p. if fst p = k then (k, ws' @ [t]) else p) m = m"
      by (induction m) auto
    then show ?thesis using True a by (simp add: map_set_def map_has_def map_get_def)
  next
    case False
    have d: "distinct (map fst m)" using Cons.prems by simp
    have g: "map_get (a # m) k = map_get m k" using False a by (simp add: map_get_def)
    let ?v = "(case map_get m k of None \<Rightarrow> [] | Some ws \<Rightarrow> ws) @ [t]"
    have "map_set k ?v (a # m) = a # map_set k ?v m"
      using False a by (simp add: map_set_def map_has_def)
    then show ?thesis using Cons.IH[OF d] g by simp
  qed
qed

lemma tasks_map_delete:
  "mset (concat (map snd (map_delete k m))) + mset (case map_get m k of None \<Rightarrow> [] | Some ws \<Rightarrow> ws)
     \<subseteq># mset (concat (map snd m))"
proof (induction m)
  case Nil
  then show ?case by (simp add: map_delete_def map_get_def)
next
  case (Cons a m)
  obtain k' ws' where a: "a = (k', ws')" by (cases a)
  show ?case
  proof (cases "k' = k")
    case True
    have "mset (concat (map snd (map_delete k m))) \<subseteq># mset (concat (map snd m))"
      using Cons.IH mset_subset_eq_add_left subset_mset.order_trans by blast
    then show ?thesis using True a by (simp add: map_delete_def map_get_def)
  next
    case False
    then show ?thesis using Cons.IH a by (simp add: map_delete_def map_get_def)
  qed
qed

lemma alloc_count:
  assumes "mset Q + mset R + mset S \<subseteq># mset_set {..<(n::nat)}"
  shows "count_list Q p + count_list R p + count_list S p \<le> (if p < n then 1 else 0)"
proof -
  have "count (mset Q + mset R + mset S) p \<le> count (mset_set {..<n}) p"
    using assms by (rule mset_subset_eq_count)
  then show ?thesis by (simp add: count_mset_set' count_mset)
qed

lemma alloc_first:
  assumes "mset Q + mset R + mset S \<subseteq># mset_set {..<(n::nat)}" "p \<in> set Q"
  shows "p \<notin> set R \<and> p \<notin> set S \<and> p < n"
proof -
  have c: "count_list Q p + count_list R p + count_list S p \<le> (if p < n then 1 else 0)"
    using assms(1) by (rule alloc_count)
  have q: "count_list Q p \<noteq> 0" using assms(2) by (simp add: count_list_0_iff)
  have "count_list R p = 0 \<and> count_list S p = 0 \<and> p < n"
  proof (cases "p < n")
    case True then show ?thesis using c q by simp
  next
    case False then show ?thesis using c q by simp
  qed
  then show ?thesis by (simp add: count_list_0_iff)
qed

lemma alloc_third:
  assumes "mset Q + mset R + mset S \<subseteq># mset_set {..<(n::nat)}" "p \<in> set S"
  shows "p < n"
proof -
  have c: "count_list Q p + count_list R p + count_list S p \<le> (if p < n then 1 else 0)"
    using assms(1) by (rule alloc_count)
  have q: "count_list S p \<noteq> 0" using assms(2) by (simp add: count_list_0_iff)
  show ?thesis
  proof (cases "p < n")
    case True then show ?thesis .
  next
    case False then show ?thesis using c q by simp
  qed
qed

lemma inv_alloc:
  "aq_inv s \<Longrightarrow> mset (queued_promises s) + mset (running_promises s) + mset (map fst (settled s))
        \<subseteq># mset_set {..<next_promise s}"
  unfolding aq_inv_def by blast

lemma inv_queued_fresh:
  assumes "aq_inv s" "p \<in> set (queued_promises s)"
  shows "p \<notin> set (running_promises s) \<and> p \<notin> set (map fst (settled s)) \<and> p < next_promise s"
  using alloc_first[OF inv_alloc[OF assms(1)] assms(2)] .

lemma inv_settled_old:
  assumes "aq_inv s" "p \<in> set (map fst (settled s))"
  shows "p < next_promise s"
  using alloc_third[OF inv_alloc[OF assms(1)] assms(2)] .

lemma processNext_noop:
  assumes "set (map fst (queue s)) \<subseteq> set (processing s)"
  shows "processNext s = s"
proof -
  have "find (\<lambda>(tid, tasks). tid \<notin> set (processing s) \<and> length tasks > 0) (queue s) = None"
    using assms by (auto simp: find_None_iff)
  then show ?thesis by (simp add: processNext_def)
qed

lemma enqueue_waiting:
  assumes "tid \<in> set (processing s)"
  shows "enqueue tid f s =
     (next_promise s,
      s\<lparr>next_promise := Suc (next_promise s),
        queue := map_set tid
           (waiters s tid @ [\<lparr>qt_id = tid, execute = f, resolver = next_promise s\<rparr>]) (queue s)\<rparr>)"
  using assms by (simp add: enqueue_def push_waiter_def waiters_def Let_def)

lemma enqueue_start:
  assumes "tid \<notin> set (processing s)" "activeCount s < concurrencyLimit s"
  shows "enqueue tid f s =
     (next_promise s,
      s\<lparr>next_promise := Suc (next_promise s),
        processing := processing s @ [tid],
        activeCount := activeCount s + 1,
        calls := calls s @ [f],
        running := running s @ [(tid, next_promise s)]\<rparr>)"
  using assms by (simp add: enqueue_def processTask_begin_def set_add_def Let_def)

lemma enqueue_saturated:
  assumes "tid \<notin> set (processing s)" "\<not> activeCount s < concurrencyLimit s"
  shows "enqueue tid f s =
     (next_promise s,
      s\<lparr>next_promise := Suc (next_promise s),
        processing := processing s @ [tid],
        queue := map_set tid
           (waiters s tid @ [\<lparr>qt_id = tid, execute = f, resolver = next_promise s\<rparr>]) (queue s)\<rparr>)"
  using assms by (simp add: enqueue_def push_waiter_def waiters_def set_add_def Let_def)

lemma fold_deliver:
  "fold (\<lambda>w. deliver out (resolver w)) ws s
     = s\<lparr>settled := settled s @ map (\<lambda>w. (resolver w, out)) ws\<rparr>"
  by (induction ws arbitrary: s) (simp_all add: deliver_def)

lemma resume_eq:
  assumes A: "set (map fst (queue s)) \<subseteq> set (processing s)"
    and J: "[] \<notin> set (map snd (queue s))"
  shows "processTask_resume tid p out s =
     s\<lparr>settled := settled s @ (p, out) # map (\<lambda>w. (resolver w, out)) (waiters s tid),
       queue := map_delete tid (queue s),
       processing := removeAll tid (processing s),
       activeCount := activeCount s - 1\<rparr>"
proof -
  let ?r = "s\<lparr>settled := settled s @ (p, out) # map (\<lambda>w. (resolver w, out)) (waiters s tid),
       queue := map_delete tid (queue s),
       processing := removeAll tid (processing s),
       activeCount := activeCount s - 1\<rparr>"
  have keys: "set (map fst (queue ?r)) \<subseteq> set (processing ?r)"
    using A by (auto simp: keys_map_delete)
  have noop: "processNext ?r = ?r" using keys by (rule processNext_noop)
  show ?thesis
  proof (cases "map_get (queue s) tid")
    case None
    have "processTask_resume tid p out s = processNext ?r"
      using None map_delete_absent[OF None]
      by (simp add: processTask_resume_def deliver_def waiters_def set_delete_def Let_def)
    then show ?thesis using noop by simp
  next
    case (Some ws)
    have "ws \<in> set (map snd (queue s))" using map_get_in[OF Some] by force
    then have "ws \<noteq> []" using J by metis
    then have "processTask_resume tid p out s = processNext ?r"
      using Some
      by (simp add: processTask_resume_def deliver_def waiters_def set_delete_def Let_def
          fold_deliver)
    then show ?thesis using noop by simp
  qed
qed

lemma waiters_subset: "set (waiters s tid) \<subseteq> set (concat (map snd (queue s)))"
proof (cases "map_get (queue s) tid")
  case None then show ?thesis by (simp add: waiters_def)
next
  case (Some ws)
  then have "(tid, ws) \<in> set (queue s)" by (rule map_get_in)
  then show ?thesis using Some by (force simp: waiters_def)
qed

lemma queued_push:
  assumes "distinct (map fst (queue s))"
  shows "mset (map resolver (concat (map snd (map_set tid
            (waiters s tid @ [\<lparr>qt_id = tid, execute = f, resolver = p\<rparr>]) (queue s)))))
         = add_mset p (mset (queued_promises s))"
proof -
  have "mset (concat (map snd (map_set tid
            (waiters s tid @ [\<lparr>qt_id = tid, execute = f, resolver = p\<rparr>]) (queue s))))
        = add_mset \<lparr>qt_id = tid, execute = f, resolver = p\<rparr> (mset (concat (map snd (queue s))))"
    unfolding waiters_def using assms by (rule tasks_map_set)
  then have "image_mset resolver (mset (concat (map snd (map_set tid
            (waiters s tid @ [\<lparr>qt_id = tid, execute = f, resolver = p\<rparr>]) (queue s)))))
        = image_mset resolver (add_mset \<lparr>qt_id = tid, execute = f, resolver = p\<rparr>
             (mset (concat (map snd (queue s)))))"
    by simp
  then show ?thesis by (simp add: queued_promises_def)
qed

lemma queued_delete:
  "mset (map resolver (concat (map snd (map_delete tid (queue s)))))
     + mset (map resolver (waiters s tid)) \<subseteq># mset (queued_promises s)"
proof -
  have "mset (concat (map snd (map_delete tid (queue s)))) + mset (waiters s tid)
          \<subseteq># mset (concat (map snd (queue s)))"
    unfolding waiters_def by (rule tasks_map_delete)
  then have "image_mset resolver (mset (concat (map snd (map_delete tid (queue s)))) + mset (waiters s tid))
          \<subseteq># image_mset resolver (mset (concat (map snd (queue s))))"
    by (rule image_mset_subseteq_mono)
  then show ?thesis by (simp add: queued_promises_def)
qed

lemma upto_Suc_mset: "mset_set {..<Suc n} = add_mset n (mset_set {..<n})"
  by (simp add: lessThan_Suc)

lemma aq_invI:
  assumes "set (map fst (queue s)) \<subseteq> set (processing s)"
    "[] \<notin> set (map snd (queue s))"
    "distinct (map fst (queue s))"
    "set (map fst (running s)) \<subseteq> set (processing s)"
    "distinct (map fst (running s))"
    "activeCount s = int (length (running s))"
    "activeCount s \<le> max 0 (concurrencyLimit s)"
    "mset (queued_promises s) + mset (running_promises s) + mset (map fst (settled s))
        \<subseteq># mset_set {..<next_promise s}"
  shows "aq_inv s"
  using assms unfolding aq_inv_def by blast

lemma aq_invD:
  assumes "aq_inv s"
  shows "set (map fst (queue s)) \<subseteq> set (processing s)"
    and "[] \<notin> set (map snd (queue s))"
    and "distinct (map fst (queue s))"
    and "set (map fst (running s)) \<subseteq> set (processing s)"
    and "distinct (map fst (running s))"
    and "activeCount s = int (length (running s))"
    and "activeCount s \<le> max 0 (concurrencyLimit s)"
  using assms unfolding aq_inv_def by blast+

lemma alloc_grow_q:
  "Q + R + S \<subseteq># mset_set {..<n} \<Longrightarrow> add_mset n Q + R + S \<subseteq># mset_set {..<Suc n}"
  by (simp add: upto_Suc_mset add.assoc)

lemma alloc_grow_r:
  "Q + R + S \<subseteq># mset_set {..<n} \<Longrightarrow> Q + add_mset n R + S \<subseteq># mset_set {..<Suc n}"
  by (simp add: upto_Suc_mset add.assoc)

lemma new_inv: "aq_inv (AsyncQueue_new K)"
  by (simp add: aq_inv_def AsyncQueue_new_def queued_promises_def running_promises_def)

lemma push_inv:
  assumes inv: "aq_inv s" and proc: "set (processing s) \<subseteq> set procs" "tid \<in> set procs"
  shows "aq_inv (s\<lparr>next_promise := Suc (next_promise s), processing := procs,
        queue := map_set tid
           (waiters s tid @ [\<lparr>qt_id = tid, execute = f, resolver = next_promise s\<rparr>]) (queue s)\<rparr>)"
    (is "aq_inv ?s'")
proof (rule aq_invI)
  note d = aq_invD[OF inv]
  let ?v = "waiters s tid @ [\<lparr>qt_id = tid, execute = f, resolver = next_promise s\<rparr>]"
  have q: "queue ?s' = map_set tid ?v (queue s)" by simp
  show "set (map fst (queue ?s')) \<subseteq> set (processing ?s')"
    using d(1) proc by (auto simp: keys_map_set)
  show "[] \<notin> set (map snd (queue ?s'))"
    using d(2) values_map_set[of tid ?v "queue s"] unfolding q by auto
  show "distinct (map fst (queue ?s'))"
    using d(3) by (simp add: keys_map_set map_has_def)
  show "set (map fst (running ?s')) \<subseteq> set (processing ?s')" using d(4) proc by auto
  show "distinct (map fst (running ?s'))" using d(5) by simp
  show "activeCount ?s' = int (length (running ?s'))" using d(6) by simp
  show "activeCount ?s' \<le> max 0 (concurrencyLimit ?s')" using d(7) by simp
  have e1: "mset (queued_promises ?s') = add_mset (next_promise s) (mset (queued_promises s))"
    using queued_push[OF d(3)] by (simp add: queued_promises_def)
  have e2: "running_promises ?s' = running_promises s" by (simp add: running_promises_def)
  have e3: "settled ?s' = settled s" "next_promise ?s' = Suc (next_promise s)" by simp_all
  show "mset (queued_promises ?s') + mset (running_promises ?s') + mset (map fst (settled ?s'))
        \<subseteq># mset_set {..<next_promise ?s'}"
    unfolding e1 e2 e3 using inv_alloc[OF inv] by (rule alloc_grow_q)
qed

lemma start_inv:
  assumes inv: "aq_inv s" and np: "tid \<notin> set (processing s)"
    and lim: "activeCount s < concurrencyLimit s"
  shows "aq_inv (s\<lparr>next_promise := Suc (next_promise s),
        processing := processing s @ [tid],
        activeCount := activeCount s + 1,
        calls := calls s @ [f],
        running := running s @ [(tid, next_promise s)]\<rparr>)"
    (is "aq_inv ?s'")
proof (rule aq_invI)
  note d = aq_invD[OF inv]
  show "set (map fst (queue ?s')) \<subseteq> set (processing ?s')" using d(1) by auto
  show "[] \<notin> set (map snd (queue ?s'))" using d(2) by simp
  show "distinct (map fst (queue ?s'))" using d(3) by simp
  show "set (map fst (running ?s')) \<subseteq> set (processing ?s')" using d(4) by auto
  show "distinct (map fst (running ?s'))" using d(4) d(5) np by auto
  show "activeCount ?s' = int (length (running ?s'))" using d(6) by simp
  show "activeCount ?s' \<le> max 0 (concurrencyLimit ?s')" using lim by simp
  have e1: "queued_promises ?s' = queued_promises s" by (simp add: queued_promises_def)
  have e2: "mset (running_promises ?s') = add_mset (next_promise s) (mset (running_promises s))"
    by (simp add: running_promises_def)
  have e3: "settled ?s' = settled s" "next_promise ?s' = Suc (next_promise s)" by simp_all
  show "mset (queued_promises ?s') + mset (running_promises ?s') + mset (map fst (settled ?s'))
        \<subseteq># mset_set {..<next_promise ?s'}"
    unfolding e1 e2 e3 using inv_alloc[OF inv] by (rule alloc_grow_r)
qed

lemma enqueue_inv: "aq_inv s \<Longrightarrow> aq_inv (snd (enqueue tid f s))"
proof -
  assume inv: "aq_inv s"
  show ?thesis
  proof (cases "tid \<in> set (processing s)")
    case True
    have "aq_inv (s\<lparr>next_promise := Suc (next_promise s), processing := processing s,
        queue := map_set tid
           (waiters s tid @ [\<lparr>qt_id = tid, execute = f, resolver = next_promise s\<rparr>]) (queue s)\<rparr>)"
      using inv True by (intro push_inv) simp_all
    then show ?thesis using enqueue_waiting[OF True, of f] by simp
  next
    case False
    show ?thesis
    proof (cases "activeCount s < concurrencyLimit s")
      case True
      then show ?thesis using enqueue_start[OF False True, of f] start_inv[OF inv False True, of f]
        by simp
    next
      case sat: False
      have "aq_inv (s\<lparr>next_promise := Suc (next_promise s), processing := processing s @ [tid],
        queue := map_set tid
           (waiters s tid @ [\<lparr>qt_id = tid, execute = f, resolver = next_promise s\<rparr>]) (queue s)\<rparr>)"
        using inv by (intro push_inv) auto
      then show ?thesis using enqueue_saturated[OF False sat, of f] by simp
    qed
  qed
qed

lemma find_running:
  assumes "find (\<lambda>r. fst r = tid) (running s) = Some r"
  shows "r \<in> set (running s) \<and> fst r = tid"
  using assms by (auto simp: find_Some_iff)

lemma settle_eq:
  assumes inv: "aq_inv s" and f: "find (\<lambda>r. fst r = tid) (running s) = Some r"
  shows "step (Settle tid out) s =
     s\<lparr>running := remove1 r (running s),
       settled := settled s @ (snd r, out) # map (\<lambda>w. (resolver w, out)) (waiters s tid),
       queue := map_delete tid (queue s),
       processing := removeAll tid (processing s),
       activeCount := activeCount s - 1\<rparr>"
proof -
  note d = aq_invD[OF inv]
  let ?s0 = "s\<lparr>running := remove1 r (running s)\<rparr>"
  have "processTask_resume tid (snd r) out ?s0 =
     ?s0\<lparr>settled := settled ?s0 @ (snd r, out) # map (\<lambda>w. (resolver w, out)) (waiters ?s0 tid),
       queue := map_delete tid (queue ?s0),
       processing := removeAll tid (processing ?s0),
       activeCount := activeCount ?s0 - 1\<rparr>"
    using d(1) d(2) by (intro resume_eq) simp_all
  then show ?thesis using f by (simp add: waiters_def)
qed

lemma settle_idle:
  assumes "find (\<lambda>r. fst r = tid) (running s) = None"
  shows "step (Settle tid out) s = s"
  using assms by simp

lemma distinct_fst_remove1:
  "distinct (map fst xs) \<Longrightarrow> distinct (map fst (remove1 r xs))"
  using inj_on_subset[OF _ set_remove1_subset[of r xs], of fst]
  by (auto simp: distinct_map distinct_remove1)

lemma fst_remove1_notin:
  "distinct (map fst xs) \<Longrightarrow> r \<in> set xs \<Longrightarrow> fst r \<notin> fst ` set (remove1 r xs)"
  by (induction xs) (auto simp: rev_image_eqI)

lemma alloc_settle:
  assumes "Q + R + S \<subseteq># (U :: nat multiset)" "Q' + W \<subseteq># Q" "p \<in># R"
  shows "Q' + (R - {#p#}) + (S + add_mset p W) \<subseteq># U"
proof -
  have "Q' + (R - {#p#}) + (S + add_mset p W) = (Q' + W) + (add_mset p (R - {#p#})) + S"
    by (simp add: ac_simps)
  also have "\<dots> = (Q' + W) + R + S" using assms(3) by simp
  also have "\<dots> \<subseteq># Q + R + S" using assms(2) by (simp add: mset_subset_eq_mono_add)
  finally show ?thesis using assms(1) subset_mset.order_trans by blast
qed

lemma settle_inv:
  assumes inv: "aq_inv s"
  shows "aq_inv (step (Settle tid out) s)"
proof (cases "find (\<lambda>r. fst r = tid) (running s)")
  case None
  then show ?thesis using inv by simp
next
  case (Some r)
  note d = aq_invD[OF inv]
  have r: "r \<in> set (running s)" "fst r = tid" using find_running[OF Some] by simp_all
  let ?s' = "s\<lparr>running := remove1 r (running s),
       settled := settled s @ (snd r, out) # map (\<lambda>w. (resolver w, out)) (waiters s tid),
       queue := map_delete tid (queue s),
       processing := removeAll tid (processing s),
       activeCount := activeCount s - 1\<rparr>"
  have "aq_inv ?s'"
  proof (rule aq_invI)
    show "set (map fst (queue ?s')) \<subseteq> set (processing ?s')"
      using d(1) by (auto simp: keys_map_delete)
    show "[] \<notin> set (map snd (queue ?s'))"
      using d(2) values_map_delete[of tid "queue s"] by auto
    show "distinct (map fst (queue ?s'))"
      using d(3) by (simp add: keys_map_delete distinct_removeAll)
    have "tid \<notin> fst ` set (remove1 r (running s))"
      using fst_remove1_notin[OF d(5) r(1)] r(2) by simp
    moreover have "fst ` set (remove1 r (running s)) \<subseteq> set (processing s)"
      using d(4) set_remove1_subset[of r "running s"] by auto
    ultimately show "set (map fst (running ?s')) \<subseteq> set (processing ?s')" by auto
    show "distinct (map fst (running ?s'))" using d(5) by (simp add: distinct_fst_remove1)
    obtain n where n: "length (running s) = Suc n" using r(1) by (cases "running s") auto
    show "activeCount ?s' = int (length (running ?s'))"
      using d(6) r(1) n by (simp add: length_remove1)
    show "activeCount ?s' \<le> max 0 (concurrencyLimit ?s')" using d(7) by simp
    have q: "mset (queued_promises ?s') + mset (map resolver (waiters s tid))
               \<subseteq># mset (queued_promises s)"
      using queued_delete[of tid s] by (simp add: queued_promises_def)
    have p: "snd r \<in># mset (running_promises s)" using r(1) by (simp add: running_promises_def)
    have e2: "mset (running_promises ?s') = mset (running_promises s) - {#snd r#}"
      by (simp add: running_promises_def image_mset_Diff r(1))
    have e3: "mset (map fst (settled ?s'))
        = mset (map fst (settled s)) + add_mset (snd r) (mset (map resolver (waiters s tid)))"
      by (simp add: comp_def)
    have e4: "next_promise ?s' = next_promise s" by simp
    show "mset (queued_promises ?s') + mset (running_promises ?s') + mset (map fst (settled ?s'))
        \<subseteq># mset_set {..<next_promise ?s'}"
      unfolding e2 e3 e4 using inv_alloc[OF inv] q p by (rule alloc_settle)
  qed
  then show ?thesis using settle_eq[OF inv Some, of out] by simp
qed

lemma clear_inv: "aq_inv s \<Longrightarrow> aq_inv (aq_clear s)"
proof -
  assume inv: "aq_inv s"
  note d = aq_invD[OF inv]
  have "mset (running_promises s) + mset (map fst (settled s))
          \<subseteq># mset (queued_promises s) + mset (running_promises s) + mset (map fst (settled s))"
    by (simp add: add.assoc)
  then have "mset (running_promises s) + mset (map fst (settled s)) \<subseteq># mset_set {..<next_promise s}"
    using inv_alloc[OF inv] subset_mset.order_trans by blast
  then show ?thesis using d
    by (intro aq_invI) (simp_all add: aq_clear_def queued_promises_def running_promises_def)
qed

lemma step_inv: "aq_inv s \<Longrightarrow> aq_inv (step e s)"
proof (cases e)
  case (Enqueue tid f) then show "aq_inv s \<Longrightarrow> ?thesis" by (simp add: enqueue_inv)
next
  case (Settle tid out) then show "aq_inv s \<Longrightarrow> ?thesis" using settle_inv by simp
next
  case ClearQueue then show "aq_inv s \<Longrightarrow> ?thesis" by (simp add: clear_inv)
qed

lemma exec_inv: "aq_inv s \<Longrightarrow> aq_inv (exec evs s)"
  unfolding exec_def by (induction evs arbitrary: s) (simp_all add: step_inv)

lemma reachable_inv: "aq_inv (exec evs (AsyncQueue_new K))"
  by (rule exec_inv[OF new_inv])

section \<open>Queue: concurrency bound and clear\<close>

lemma enqueue_cases:
  assumes inv: "aq_inv s"
  obtains (push) procs where "set (processing s) \<subseteq> set procs"
      "snd (enqueue tid f s) = s\<lparr>next_promise := Suc (next_promise s), processing := procs,
          queue := map_set tid
           (waiters s tid @ [\<lparr>qt_id = tid, execute = f, resolver = next_promise s\<rparr>]) (queue s)\<rparr>"
    | (start) "tid \<notin> set (processing s)" "activeCount s < concurrencyLimit s"
      "snd (enqueue tid f s) = s\<lparr>next_promise := Suc (next_promise s),
          processing := processing s @ [tid],
          activeCount := activeCount s + 1,
          calls := calls s @ [f],
          running := running s @ [(tid, next_promise s)]\<rparr>"
proof (cases "tid \<in> set (processing s)")
  case True
  show ?thesis
    by (rule push[of "processing s"]) (simp_all add: enqueue_waiting[OF True])
next
  case False
  show ?thesis
  proof (cases "activeCount s < concurrencyLimit s")
    case True
    show ?thesis by (rule start[OF False True]) (simp add: enqueue_start[OF False True])
  next
    case sat: False
    show ?thesis
      by (rule push[of "processing s @ [tid]"]) (auto simp: enqueue_saturated[OF False sat])
  qed
qed

lemma queued_push_set:
  assumes "distinct (map fst (queue s))"
  shows "set (queued_promises (s\<lparr>next_promise := n, processing := procs,
          queue := map_set tid
           (waiters s tid @ [\<lparr>qt_id = tid, execute = f, resolver = p\<rparr>]) (queue s)\<rparr>))
         = insert p (set (queued_promises s))"
proof -
  have "mset (queued_promises (s\<lparr>next_promise := n, processing := procs,
          queue := map_set tid
           (waiters s tid @ [\<lparr>qt_id = tid, execute = f, resolver = p\<rparr>]) (queue s)\<rparr>))
        = add_mset p (mset (queued_promises s))"
    using queued_push[OF assms] by (simp add: queued_promises_def)
  then show ?thesis by (metis set_mset_add_mset_insert set_mset_mset)
qed

lemma queued_delete_set:
  "set (map resolver (concat (map snd (map_delete tid (queue s))))) \<subseteq> set (queued_promises s)"
  unfolding map_delete_def queued_promises_def by auto

lemma waiters_promises: "set (map resolver (waiters s tid)) \<subseteq> set (queued_promises s)"
  using waiters_subset[of s tid] unfolding queued_promises_def by auto

lemma step_limit: "aq_inv s \<Longrightarrow> concurrencyLimit (step e s) = concurrencyLimit s"
proof (cases e)
  case (Enqueue tid f)
  assume inv: "aq_inv s"
  show ?thesis using inv
    by (cases rule: enqueue_cases[of s tid f]) (simp_all add: Enqueue)
next
  case (Settle tid out)
  assume inv: "aq_inv s"
  show ?thesis
  proof (cases "find (\<lambda>r. fst r = tid) (running s)")
    case None then show ?thesis using Settle by simp
  next
    case (Some r) then show ?thesis using settle_eq[OF inv Some, of out] Settle by simp
  qed
next
  case ClearQueue
  then show "aq_inv s \<Longrightarrow> ?thesis" by (simp add: aq_clear_def)
qed

lemma exec_limit: "aq_inv s \<Longrightarrow> concurrencyLimit (exec evs s) = concurrencyLimit s"
  unfolding exec_def
  by (induction evs arbitrary: s) (simp_all add: step_limit step_inv)

text \<open>
  C6. For a limit \<open>K \<ge> 0\<close> and every sequence of enqueues, settlements and clears on a
  new queue, \<open>activeCount\<close> is the number of task invocations in flight, and it never
  exceeds \<open>K\<close>.
\<close>
theorem concurrency_bound:
  assumes "0 \<le> K"
  shows "activeCount (exec evs (AsyncQueue_new K)) = int (length (running (exec evs (AsyncQueue_new K))))
       \<and> int (length (running (exec evs (AsyncQueue_new K)))) \<le> K"
proof -
  let ?s = "exec evs (AsyncQueue_new K)"
  have inv: "aq_inv ?s" by (rule reachable_inv)
  have "concurrencyLimit ?s = K" using exec_limit[OF new_inv, of evs K] by (simp add: AsyncQueue_new_def)
  then show ?thesis using aq_invD(6,7)[OF inv] assms by simp
qed

theorem concurrency_bound_witness:
  "int (length (running (exec [Enqueue ''a'' 1, Enqueue ''b'' 2, Enqueue ''c'' 3]
      (AsyncQueue_new 2 :: nat AsyncQueue)))) \<le> 2"
proof -
  have h: "(0::int) \<le> 2" by simp
  from concurrency_bound[OF h, of "[Enqueue ''a'' 1, Enqueue ''b'' 2, Enqueue ''c'' 3]"]
  show ?thesis by blast
qed

lemma step_gone:
  assumes inv: "aq_inv s" and g: "gone s p"
  shows "gone (step e s) p"
proof (cases e)
  case (Enqueue tid f)
  note d = aq_invD[OF inv]
  show ?thesis using inv
  proof (cases rule: enqueue_cases[of s tid f])
    case (push procs)
    show ?thesis using g unfolding Enqueue gone_def step.simps push(2) queued_push_set[OF d(3)]
      by (simp add: running_promises_def)
  next
    case start
    show ?thesis using g unfolding Enqueue gone_def step.simps start(3)
      by (simp add: running_promises_def queued_promises_def)
  qed
next
  case (Settle tid out)
  show ?thesis
  proof (cases "find (\<lambda>r. fst r = tid) (running s)")
    case None then show ?thesis using g Settle by simp
  next
    case (Some r)
    have r: "r \<in> set (running s)" using find_running[OF Some] by simp
    then have pr: "snd r \<in> set (running_promises s)" by (simp add: running_promises_def)
    have "set (remove1 r (running s)) \<subseteq> set (running s)" by (rule set_remove1_subset)
    then have rr: "set (map snd (remove1 r (running s))) \<subseteq> set (running_promises s)"
      by (auto simp: running_promises_def)
    let ?s' = "step (Settle tid out) s"
    have e: "?s' = s\<lparr>running := remove1 r (running s),
       settled := settled s @ (snd r, out) # map (\<lambda>w. (resolver w, out)) (waiters s tid),
       queue := map_delete tid (queue s),
       processing := removeAll tid (processing s),
       activeCount := activeCount s - 1\<rparr>"
      by (rule settle_eq[OF inv Some])
    have q: "set (queued_promises ?s') \<subseteq> set (queued_promises s)"
      unfolding e using queued_delete_set[of tid s] by (simp add: queued_promises_def)
    have r': "set (running_promises ?s') \<subseteq> set (running_promises s)"
      unfolding e using rr by (simp add: running_promises_def)
    have "map fst (settled ?s') = map fst (settled s) @ snd r # map resolver (waiters s tid)"
      unfolding e by (simp add: comp_def)
    then have s': "set (map fst (settled ?s'))
        \<subseteq> set (map fst (settled s)) \<union> set (running_promises s) \<union> set (queued_promises s)"
      using pr waiters_promises[of s tid] by auto
    have n: "next_promise ?s' = next_promise s" unfolding e by simp
    show ?thesis using g q r' s' unfolding Settle gone_def n by blast
  qed
next
  case ClearQueue
  then show ?thesis using g by (simp add: gone_def aq_clear_def queued_promises_def running_promises_def)
qed

lemma exec_gone: "aq_inv s \<Longrightarrow> gone s p \<Longrightarrow> gone (exec evs s) p"
  unfolding exec_def
  by (induction evs arbitrary: s) (simp_all add: step_gone step_inv)

lemma gone_pending: "gone s p \<Longrightarrow> promise_outcome s p = None"
  by (simp add: gone_def promise_outcome_def map_of_eq_None_iff)

text \<open>
  C10. \<open>clear\<close> empties the queue and leaves \<open>processing\<close>, \<open>activeCount\<close>, the
  suspended activations and every promise's state as they are: no waiter is resolved or
  rejected. A promise that was held by a queued waiter when \<open>clear\<close> ran is never
  settled, whatever happens afterwards.
\<close>
theorem clear_drops_waiters:
  assumes "p \<in> set (queued_promises (exec evs (AsyncQueue_new K)))"
  shows "processing (aq_clear (exec evs (AsyncQueue_new K))) = processing (exec evs (AsyncQueue_new K))
       \<and> activeCount (aq_clear (exec evs (AsyncQueue_new K))) = activeCount (exec evs (AsyncQueue_new K))
       \<and> running (aq_clear (exec evs (AsyncQueue_new K))) = running (exec evs (AsyncQueue_new K))
       \<and> settled (aq_clear (exec evs (AsyncQueue_new K))) = settled (exec evs (AsyncQueue_new K))
       \<and> queue (aq_clear (exec evs (AsyncQueue_new K))) = []
       \<and> promise_outcome (exec later (aq_clear (exec evs (AsyncQueue_new K)))) p = None"
proof -
  let ?s = "exec evs (AsyncQueue_new K)"
  have inv: "aq_inv ?s" by (rule reachable_inv)
  have "gone (aq_clear ?s) p"
    using inv_queued_fresh[OF inv assms]
    by (simp add: gone_def aq_clear_def queued_promises_def running_promises_def)
  then have "gone (exec later (aq_clear ?s)) p" using exec_gone[OF clear_inv[OF inv]] by blast
  then show ?thesis using gone_pending by (simp add: aq_clear_def)
qed

theorem clear_drops_waiters_witness:
  "promise_outcome
     (exec [Settle ''a'' (Resolved 5)]
        (aq_clear (exec [Enqueue ''a'' 1, Enqueue ''a'' 1] (AsyncQueue_new 10 :: nat AsyncQueue)))) 1
   = None"
proof -
  have h: "1 \<in> set (queued_promises
      (exec [Enqueue ''a'' 1, Enqueue ''a'' 1] (AsyncQueue_new 10 :: nat AsyncQueue)))"
    by (simp add: exec_def enqueue_def AsyncQueue_new_def processTask_begin_def push_waiter_def
        set_add_def map_get_def map_set_def map_has_def queued_promises_def Let_def)
  from clear_drops_waiters[OF h, of "[Settle ''a'' (Resolved 5)]"] show ?thesis by blast
qed

section \<open>Queue: a fetch queued at saturation\<close>

lemma entries_map_set: "set (map_set k v m) \<subseteq> insert (k, v) (set m)"
  unfolding map_set_def by auto

lemma entries_map_delete: "set (map_delete k m) \<subseteq> set m"
  unfolding map_delete_def by auto

lemma waiters_entry: "waiters s k = [] \<or> (k, waiters s k) \<in> set (queue s)"
  unfolding waiters_def by (auto split: option.splits dest: map_get_in)

lemma step_stuck:
  assumes inv: "aq_inv s" and st: "stuck s tid p"
  shows "stuck (step e s) tid p"
proof (cases e)
  case (Enqueue k f)
  show ?thesis using inv
  proof (cases rule: enqueue_cases[of s k f])
    case (push procs)
    let ?v = "waiters s k @ [\<lparr>qt_id = k, execute = f, resolver = next_promise s\<rparr>]"
    have v: "k \<noteq> tid \<Longrightarrow> p \<notin> set (map resolver ?v)"
      using st waiters_entry[of s k] unfolding stuck_def by fastforce
    have "\<forall>e \<in> set (map_set k ?v (queue s)). fst e \<noteq> tid \<longrightarrow> p \<notin> set (map resolver (snd e))"
    proof (intro ballI impI)
      fix e assume e: "e \<in> set (map_set k ?v (queue s))" "fst e \<noteq> tid"
      then have "e = (k, ?v) \<or> e \<in> set (queue s)" using entries_map_set[of k ?v "queue s"] by auto
      then show "p \<notin> set (map resolver (snd e))"
      proof
        assume "e = (k, ?v)" then show ?thesis using v e(2) by simp
      next
        assume "e \<in> set (queue s)" then show ?thesis using st e(2) unfolding stuck_def by blast
      qed
    qed
    then show ?thesis using st push(1) unfolding Enqueue step.simps push(2) stuck_def
      by (auto simp: running_promises_def)
  next
    case start
    show ?thesis using st start(1) unfolding Enqueue step.simps start(3) stuck_def
      by (auto simp: running_promises_def)
  qed
next
  case (Settle k out)
  show ?thesis
  proof (cases "find (\<lambda>r. fst r = k) (running s)")
    case None then show ?thesis using st Settle by simp
  next
    case (Some r)
    have r: "r \<in> set (running s)" "fst r = k" using find_running[OF Some] by simp_all
    have k: "k \<noteq> tid" using r st unfolding stuck_def by force
    have pr: "snd r \<noteq> p" using r(1) st unfolding stuck_def running_promises_def by force
    let ?s' = "step (Settle k out) s"
    have e: "?s' = s\<lparr>running := remove1 r (running s),
       settled := settled s @ (snd r, out) # map (\<lambda>w. (resolver w, out)) (waiters s k),
       queue := map_delete k (queue s),
       processing := removeAll k (processing s),
       activeCount := activeCount s - 1\<rparr>"
      by (rule settle_eq[OF inv Some])
    have w: "p \<notin> set (map resolver (waiters s k))"
      using st k waiters_entry[of s k] unfolding stuck_def by fastforce
    have c1: "tid \<in> set (processing ?s')" using st k unfolding e stuck_def by simp
    have sub: "set (remove1 r (running s)) \<subseteq> set (running s)" by (rule set_remove1_subset)
    have c2: "tid \<notin> set (map fst (running ?s'))" using st sub unfolding e stuck_def by auto
    have c3: "p \<notin> set (running_promises ?s')"
      using st sub unfolding e stuck_def running_promises_def by auto
    have "map fst (settled ?s') = map fst (settled s) @ snd r # map resolver (waiters s k)"
      unfolding e by (simp add: comp_def)
    then have c4: "p \<notin> set (map fst (settled ?s'))" using st pr w unfolding stuck_def by auto
    have c5: "p < next_promise ?s'" using st unfolding e stuck_def by simp
    have c6: "\<forall>e \<in> set (queue ?s'). fst e \<noteq> tid \<longrightarrow> p \<notin> set (map resolver (snd e))"
      using st entries_map_delete[of k "queue s"] unfolding e stuck_def by auto
    show ?thesis unfolding Settle stuck_def using c1 c2 c3 c4 c5 c6 by blast
  qed
next
  case ClearQueue
  then show ?thesis using st by (simp add: stuck_def aq_clear_def running_promises_def)
qed

lemma exec_stuck: "aq_inv s \<Longrightarrow> stuck s tid p \<Longrightarrow> stuck (exec evs s) tid p"
  unfolding exec_def
  by (induction evs arbitrary: s) (simp_all add: step_stuck step_inv)

lemma exec_append: "exec (xs @ ys) s = exec ys (exec xs s)"
  by (simp add: exec_def)

lemma saturated_example:
  "exec [Enqueue ''a'' 1, Enqueue ''b'' 2, Settle ''a'' (Resolved (7::nat))] (AsyncQueue_new 1)
     = \<lparr>queue = [(''b'', [\<lparr>qt_id = ''b'', execute = 2, resolver = 1\<rparr>])],
        processing = [''b''], concurrencyLimit = 1, activeCount = 0,
        running = [], calls = [1], settled = [(0, Resolved 7)], next_promise = 2\<rparr>"
  by (simp add: exec_def enqueue_def AsyncQueue_new_def processTask_begin_def push_waiter_def
      processTask_resume_def processNext_def deliver_def set_add_def set_delete_def
      map_get_def map_set_def map_has_def map_delete_def Let_def)

text \<open>
  C5. The claim is that a fetch queued because the limit was saturated is admitted when
  another key's fetch completes. \<open>enqueue\<close> marks the key as processing before it tests
  the limit, and \<open>processNext\<close> skips every key marked as processing. With limit 1:
  fetch \<open>a\<close> runs, fetch \<open>b\<close> is queued; when \<open>a\<close> settles, \<open>activeCount\<close> is 0 and
  nothing runs, \<open>b\<close>'s task has not been called and is still queued; and whatever
  happens afterwards, \<open>b\<close>'s promise (promise 1) is never settled.
\<close>
theorem queued_fetch_never_admitted:
  "calls (exec [Enqueue ''a'' 1, Enqueue ''b'' 2, Settle ''a'' (Resolved (7::nat))] (AsyncQueue_new 1)) = [1]
   \<and> activeCount (exec [Enqueue ''a'' 1, Enqueue ''b'' 2, Settle ''a'' (Resolved (7::nat))] (AsyncQueue_new 1)) = 0
   \<and> running (exec [Enqueue ''a'' 1, Enqueue ''b'' 2, Settle ''a'' (Resolved (7::nat))] (AsyncQueue_new 1)) = []
   \<and> queue (exec [Enqueue ''a'' 1, Enqueue ''b'' 2, Settle ''a'' (Resolved (7::nat))] (AsyncQueue_new 1))
        = [(''b'', [\<lparr>qt_id = ''b'', execute = 2, resolver = 1\<rparr>])]
   \<and> (\<forall>later. promise_outcome
         (exec ([Enqueue ''a'' 1, Enqueue ''b'' 2, Settle ''a'' (Resolved (7::nat))] @ later)
            (AsyncQueue_new 1)) 1 = None)"
proof -
  let ?pre = "[Enqueue ''a'' 1, Enqueue ''b'' 2, Settle ''a'' (Resolved (7::nat))]"
  let ?s = "exec ?pre (AsyncQueue_new 1)"
  have inv: "aq_inv ?s" by (rule reachable_inv)
  have st: "stuck ?s ''b'' 1"
    unfolding saturated_example by (simp add: stuck_def running_promises_def)
  have "\<forall>later. promise_outcome (exec (?pre @ later) (AsyncQueue_new 1)) 1 = None"
  proof
    fix later
    have "stuck (exec later ?s) ''b'' 1" using exec_stuck[OF inv st] .
    then show "promise_outcome (exec (?pre @ later) (AsyncQueue_new 1)) 1 = None"
      unfolding exec_append by (simp add: stuck_def promise_outcome_def map_of_eq_None_iff)
  qed
  then show ?thesis unfolding saturated_example by simp
qed

section \<open>Queue: single flight\<close>

lemma waiters_after_push:
  "waiters (s\<lparr>next_promise := n, queue := map_set tid v (queue s)\<rparr>) tid = v"
  by (simp add: waiters_def map_get_set_same)

lemma many_waiting:
  assumes "tid \<in> set (processing s1)" "aq_inv s1"
  shows "fst (enqueue_many tid f n s1) = [next_promise s1 ..< next_promise s1 + n]
       \<and> calls (snd (enqueue_many tid f n s1)) = calls s1
       \<and> running (snd (enqueue_many tid f n s1)) = running s1
       \<and> settled (snd (enqueue_many tid f n s1)) = settled s1
       \<and> processing (snd (enqueue_many tid f n s1)) = processing s1
       \<and> activeCount (snd (enqueue_many tid f n s1)) = activeCount s1
       \<and> map resolver (waiters (snd (enqueue_many tid f n s1)) tid)
            = map resolver (waiters s1 tid) @ [next_promise s1 ..< next_promise s1 + n]
       \<and> aq_inv (snd (enqueue_many tid f n s1))"
  using assms
proof (induction n arbitrary: s1)
  case 0
  then show ?case by simp
next
  case (Suc n)
  let ?t = "\<lparr>qt_id = tid, execute = f, resolver = next_promise s1\<rparr>"
  let ?s2 = "s1\<lparr>next_promise := Suc (next_promise s1),
        queue := map_set tid (waiters s1 tid @ [?t]) (queue s1)\<rparr>"
  have e: "enqueue tid f s1 = (next_promise s1, ?s2)" by (rule enqueue_waiting[OF Suc.prems(1)])
  have inv2: "aq_inv ?s2" using enqueue_inv[OF Suc.prems(2), of tid f] e by simp
  have p2: "tid \<in> set (processing ?s2)" using Suc.prems(1) by simp
  note ih = Suc.IH[OF p2 inv2]
  have w2: "waiters ?s2 tid = waiters s1 tid @ [?t]" by (rule waiters_after_push)
  have n2: "next_promise ?s2 = Suc (next_promise s1)" by simp
  have u: "[next_promise s1 ..< next_promise s1 + Suc n]
            = next_promise s1 # [Suc (next_promise s1) ..< Suc (next_promise s1) + n]"
    by (simp add: upt_conv_Cons)
  have f1: "fst (enqueue_many tid f (Suc n) s1) = next_promise s1 # fst (enqueue_many tid f n ?s2)"
    and f2: "snd (enqueue_many tid f (Suc n) s1) = snd (enqueue_many tid f n ?s2)"
    using e by (simp_all add: split_def Let_def)
  show ?case unfolding f1 f2 u using ih unfolding w2 n2 by simp
qed

lemma find_last:
  assumes "\<forall>y \<in> set xs. \<not> P y" "P x"
  shows "find P (xs @ [x]) = Some x"
  using assms by (induction xs) auto

lemma map_of_const:
  "p \<in> set ps \<Longrightarrow> map_of (map (\<lambda>p. (p, out)) ps) p = Some out"
  by (induction ps) auto

lemma outcome_append:
  assumes "p \<notin> set (map fst xs)"
  shows "map_of (xs @ ys) p = map_of ys p"
  using assms by (induction xs) auto

text \<open>
  Where no call for the key is pending (the key is not marked as processing) and
  \<open>activeCount\<close> is below the limit, the queue is single-flight: \<open>N \<ge> 1\<close> calls
  \<open>enqueue(tid, f)\<close> in a row return \<open>N\<close> distinct pending promises and call \<open>f\<close> exactly
  once; when that call settles, with a value or an error, no further task is called,
  each of the \<open>N\<close> promises settles with that same outcome, and the key is idle again.
\<close>

lemma single_flight_when_idle:
  assumes idle: "tid \<notin> set (processing (exec evs (AsyncQueue_new K)))"
    and room: "activeCount (exec evs (AsyncQueue_new K)) < concurrencyLimit (exec evs (AsyncQueue_new K))"
    and N: "0 < N"
  shows "length (fst (enqueue_many tid f N (exec evs (AsyncQueue_new K)))) = N
     \<and> distinct (fst (enqueue_many tid f N (exec evs (AsyncQueue_new K))))
     \<and> calls (snd (enqueue_many tid f N (exec evs (AsyncQueue_new K))))
          = calls (exec evs (AsyncQueue_new K)) @ [f]
     \<and> calls (step (Settle tid out) (snd (enqueue_many tid f N (exec evs (AsyncQueue_new K)))))
          = calls (exec evs (AsyncQueue_new K)) @ [f]
     \<and> (\<forall>p \<in> set (fst (enqueue_many tid f N (exec evs (AsyncQueue_new K)))).
           promise_outcome (snd (enqueue_many tid f N (exec evs (AsyncQueue_new K)))) p = None
         \<and> promise_outcome
              (step (Settle tid out) (snd (enqueue_many tid f N (exec evs (AsyncQueue_new K))))) p
             = Some out)
     \<and> processing (step (Settle tid out) (snd (enqueue_many tid f N (exec evs (AsyncQueue_new K)))))
          = processing (exec evs (AsyncQueue_new K))
     \<and> activeCount (step (Settle tid out) (snd (enqueue_many tid f N (exec evs (AsyncQueue_new K)))))
          = activeCount (exec evs (AsyncQueue_new K))
     \<and> running (step (Settle tid out) (snd (enqueue_many tid f N (exec evs (AsyncQueue_new K)))))
          = running (exec evs (AsyncQueue_new K))"
proof -
  let ?s = "exec evs (AsyncQueue_new K)"
  obtain n where Nn: "N = Suc n" using N by (cases N) auto
  have inv: "aq_inv ?s" by (rule reachable_inv)
  note d = aq_invD[OF inv]
  let ?p0 = "next_promise ?s"
  let ?s1 = "?s\<lparr>next_promise := Suc ?p0,
        processing := processing ?s @ [tid],
        activeCount := activeCount ?s + 1,
        calls := calls ?s @ [f],
        running := running ?s @ [(tid, ?p0)]\<rparr>"
  have e: "enqueue tid f ?s = (?p0, ?s1)" by (rule enqueue_start[OF idle room])
  have inv1: "aq_inv ?s1" by (rule start_inv[OF inv idle room])
  have p1: "tid \<in> set (processing ?s1)" by simp
  have "tid \<notin> set (map fst (queue ?s))" using d(1) idle by blast
  then have "map_get (queue ?s) tid = None" by (simp add: map_get_def map_of_eq_None_iff)
  then have w1: "waiters ?s1 tid = []" by (simp add: waiters_def)
  let ?ps = "fst (enqueue_many tid f N ?s)"
  let ?s' = "snd (enqueue_many tid f N ?s)"
  let ?rest = "[Suc ?p0 ..< Suc ?p0 + n]"
  have f1: "?ps = ?p0 # fst (enqueue_many tid f n ?s1)"
    and f2: "?s' = snd (enqueue_many tid f n ?s1)"
    using e unfolding Nn by (simp_all add: split_def Let_def)
  have mw: "fst (enqueue_many tid f n ?s1) = ?rest
       \<and> calls (snd (enqueue_many tid f n ?s1)) = calls ?s1
       \<and> running (snd (enqueue_many tid f n ?s1)) = running ?s1
       \<and> settled (snd (enqueue_many tid f n ?s1)) = settled ?s1
       \<and> processing (snd (enqueue_many tid f n ?s1)) = processing ?s1
       \<and> activeCount (snd (enqueue_many tid f n ?s1)) = activeCount ?s1
       \<and> map resolver (waiters (snd (enqueue_many tid f n ?s1)) tid)
            = map resolver (waiters ?s1 tid) @ ?rest
       \<and> aq_inv (snd (enqueue_many tid f n ?s1))"
    using many_waiting[OF p1 inv1, of f n] by simp
  have ps: "?ps = ?p0 # ?rest" using f1 mw by simp
  have c': "calls ?s' = calls ?s @ [f]" using f2 mw by simp
  have r': "running ?s' = running ?s @ [(tid, ?p0)]" using f2 mw by simp
  have s': "settled ?s' = settled ?s" using f2 mw by simp
  have pr': "processing ?s' = processing ?s @ [tid]" using f2 mw by simp
  have ac': "activeCount ?s' = activeCount ?s + 1" using f2 mw by simp
  have w': "map resolver (waiters ?s' tid) = ?rest" using f2 mw w1 by simp
  have inv': "aq_inv ?s'" using f2 mw by simp
  have len: "length ?ps = N" unfolding ps by (simp add: Nn)
  have dist: "distinct ?ps" unfolding ps by simp
  have fresh: "\<forall>p \<in> set ?ps. p \<notin> set (map fst (settled ?s))"
  proof
    fix p assume "p \<in> set ?ps"
    then have "?p0 \<le> p" unfolding ps by auto
    then show "p \<notin> set (map fst (settled ?s))" using inv_settled_old[OF inv, of p] by auto
  qed
  have noid: "\<forall>y \<in> set (running ?s). \<not> fst y = tid" using d(4) idle by auto
  then have fnd: "find (\<lambda>r. fst r = tid) (running ?s') = Some (tid, ?p0)"
    unfolding r' by (intro find_last) simp_all
  let ?s'' = "step (Settle tid out) ?s'"
  have e'': "?s'' = ?s'\<lparr>running := remove1 (tid, ?p0) (running ?s'),
       settled := settled ?s' @ (snd (tid, ?p0), out) # map (\<lambda>w. (resolver w, out)) (waiters ?s' tid),
       queue := map_delete tid (queue ?s'),
       processing := removeAll tid (processing ?s'),
       activeCount := activeCount ?s' - 1\<rparr>"
    by (rule settle_eq[OF inv' fnd])
  have c'': "calls ?s'' = calls ?s @ [f]" unfolding e'' using c' by simp
  have pr'': "processing ?s'' = processing ?s" unfolding e'' using pr' idle by simp
  have ac'': "activeCount ?s'' = activeCount ?s" unfolding e'' using ac' by simp
  have "(tid, ?p0) \<notin> set (running ?s)" using noid by force
  then have ru'': "running ?s'' = running ?s"
    unfolding e'' using r' by (simp add: remove1_append)
  have "map (\<lambda>w. (resolver w, out)) (waiters ?s' tid)
          = map (\<lambda>p. (p, out)) (map resolver (waiters ?s' tid))"
    by (simp add: comp_def)
  then have s'': "settled ?s'' = settled ?s @ map (\<lambda>p. (p, out)) ?ps"
    unfolding e'' ps using s' w' by simp
  have pend: "\<forall>p \<in> set ?ps. promise_outcome ?s' p = None"
    using fresh unfolding promise_outcome_def s' by (simp add: map_of_eq_None_iff)
  have settled_all: "\<forall>p \<in> set ?ps. promise_outcome ?s'' p = Some out"
  proof
    fix p assume p: "p \<in> set ?ps"
    then have "p \<notin> set (map fst (settled ?s))" using fresh by blast
    then have "map_of (settled ?s'') p = map_of (map (\<lambda>p. (p, out)) ?ps) p"
      unfolding s'' by (rule outcome_append)
    then show "promise_outcome ?s'' p = Some out"
      using map_of_const[OF p, of out] by (simp add: promise_outcome_def)
  qed
  show ?thesis using len dist c' c'' pend settled_all pr'' ac'' ru'' by blast
qed

lemma many_inv: "aq_inv s \<Longrightarrow> aq_inv (snd (enqueue_many tid f n s))"
proof (induction n arbitrary: s)
  case 0 then show ?case by simp
next
  case (Suc n)
  have "aq_inv (snd (enqueue tid f s))" by (rule enqueue_inv[OF Suc.prems])
  then have "aq_inv (snd (enqueue_many tid f n (snd (enqueue tid f s))))" by (rule Suc.IH)
  then show ?case by (simp add: split_def Let_def)
qed

lemma after_saturation_example:
  "enqueue_many ''b'' 3 2
      (exec [Enqueue ''a'' 1, Enqueue ''b'' 2, Settle ''a'' (Resolved (7::nat))] (AsyncQueue_new 1))
     = ([2, 3],
        \<lparr>queue = [(''b'', [\<lparr>qt_id = ''b'', execute = 2, resolver = 1\<rparr>,
                           \<lparr>qt_id = ''b'', execute = 3, resolver = 2\<rparr>,
                           \<lparr>qt_id = ''b'', execute = 3, resolver = 3\<rparr>])],
         processing = [''b''], concurrencyLimit = 1, activeCount = 0,
         running = [], calls = [1], settled = [(0, Resolved 7)], next_promise = 4\<rparr>)"
  unfolding saturated_example
  by (simp add: eval_nat_numeral enqueue_def push_waiter_def
      map_get_def map_set_def map_has_def Let_def)

text \<open>
  C1. The claim is that \<open>N\<close> concurrent calls for a key, arriving while the limit is not
  saturated, call the fetch function exactly once and all settle with its outcome. A key
  that was queued at saturation stays marked as processing (the defect of C5), and every
  later call for it is only queued. With limit 1: fetch \<open>a\<close> runs, fetch \<open>b\<close> is queued,
  \<open>a\<close> settles; now \<open>activeCount\<close> is 0, below the limit, and nothing is in flight. Two
  calls \<open>enqueue('b', f)\<close> with \<open>f\<close> = task 3 get the promises 2 and 3; \<open>f\<close> is not called,
  and whatever happens afterwards, neither promise is ever settled.
\<close>

theorem single_flight_fails_after_saturation:
  "activeCount (exec [Enqueue ''a'' 1, Enqueue ''b'' 2, Settle ''a'' (Resolved (7::nat))] (AsyncQueue_new 1))
      < concurrencyLimit (exec [Enqueue ''a'' 1, Enqueue ''b'' 2, Settle ''a'' (Resolved (7::nat))] (AsyncQueue_new 1))
   \<and> running (exec [Enqueue ''a'' 1, Enqueue ''b'' 2, Settle ''a'' (Resolved (7::nat))] (AsyncQueue_new 1)) = []
   \<and> processing (exec [Enqueue ''a'' 1, Enqueue ''b'' 2, Settle ''a'' (Resolved (7::nat))] (AsyncQueue_new 1)) = [''b'']
   \<and> fst (enqueue_many ''b'' 3 2
         (exec [Enqueue ''a'' 1, Enqueue ''b'' 2, Settle ''a'' (Resolved (7::nat))] (AsyncQueue_new 1)))
       = [2, 3]
   \<and> calls (snd (enqueue_many ''b'' 3 2
         (exec [Enqueue ''a'' 1, Enqueue ''b'' 2, Settle ''a'' (Resolved (7::nat))] (AsyncQueue_new 1))))
       = [1]
   \<and> (\<forall>later.
         promise_outcome (exec later (snd (enqueue_many ''b'' 3 2
           (exec [Enqueue ''a'' 1, Enqueue ''b'' 2, Settle ''a'' (Resolved (7::nat))] (AsyncQueue_new 1))))) 2
           = None
       \<and> promise_outcome (exec later (snd (enqueue_many ''b'' 3 2
           (exec [Enqueue ''a'' 1, Enqueue ''b'' 2, Settle ''a'' (Resolved (7::nat))] (AsyncQueue_new 1))))) 3
           = None)"
proof -
  let ?s = "exec [Enqueue ''a'' 1, Enqueue ''b'' 2, Settle ''a'' (Resolved (7::nat))] (AsyncQueue_new 1)"
  let ?s' = "snd (enqueue_many ''b'' 3 2 ?s)"
  have inv: "aq_inv ?s'" by (rule many_inv[OF reachable_inv])
  have st2: "stuck ?s' ''b'' 2" and st3: "stuck ?s' ''b'' 3"
    unfolding after_saturation_example by (simp_all add: stuck_def running_promises_def)
  have never: "\<forall>later. promise_outcome (exec later ?s') 2 = None
                    \<and> promise_outcome (exec later ?s') 3 = None"
  proof
    fix later
    have "stuck (exec later ?s') ''b'' 2" "stuck (exec later ?s') ''b'' 3"
      using exec_stuck[OF inv st2] exec_stuck[OF inv st3] by simp_all
    then show "promise_outcome (exec later ?s') 2 = None \<and> promise_outcome (exec later ?s') 3 = None"
      by (simp add: stuck_def promise_outcome_def map_of_eq_None_iff)
  qed
  have state: "activeCount ?s < concurrencyLimit ?s \<and> running ?s = [] \<and> processing ?s = [''b'']"
    unfolding saturated_example by simp
  have calls: "fst (enqueue_many ''b'' 3 2 ?s) = [2, 3] \<and> calls ?s' = [1]"
    unfolding after_saturation_example by simp
  show ?thesis using state calls never by blast
qed

end
